theory Spec2Isabelle
  imports Complex_Main
begin

section \<open>Online Mahalanobis outlier detector (CoreMahalanobis)\<close>

text \<open>
  The detector of the notebook is embedded in exact arithmetic: every numpy float is a
  \<^typ>\<open>real\<close>, a one-dimensional array is a list of reals and a two-dimensional array is
  a list of rows. Python exceptions are values of the type \<open>error\<close>; a call of
  \<open>_get_preds\<close> returns its result together with the object as the call leaves it.
\<close>

subsection \<open>Arrays\<close>

type_synonym vec = "real list"
type_synonym matrix = "real list list"

datatype error = IndexError | TypeError | ValueError | LinAlgError | ZeroDivisionError

definition vadd :: "vec \<Rightarrow> vec \<Rightarrow> vec" where
  "vadd u v = map2 (+) u v"

definition vsub :: "vec \<Rightarrow> vec \<Rightarrow> vec" where
  "vsub u v = map2 (-) u v"

definition vscale :: "real \<Rightarrow> vec \<Rightarrow> vec" where
  "vscale c v = map ((*) c) v"

definition madd :: "matrix \<Rightarrow> matrix \<Rightarrow> matrix" where
  "madd A B = map2 vadd A B"

definition msub :: "matrix \<Rightarrow> matrix \<Rightarrow> matrix" where
  "msub A B = map2 vsub A B"

definition mscale :: "real \<Rightarrow> matrix \<Rightarrow> matrix" where
  "mscale c A = map (vscale c) A"

definition dot :: "vec \<Rightarrow> vec \<Rightarrow> real" where
  "dot u v = sum_list (map2 (*) u v)"

definition outer :: "vec \<Rightarrow> vec \<Rightarrow> matrix" where
  \<comment> \<open>\<open>np.matmul(u[:,None], v[None,:])\<close>\<close>
  "outer u v = map (\<lambda>a. map (\<lambda>b. a * b) v) u"

definition ncols :: "matrix \<Rightarrow> nat" where
  "ncols M = (case M of [] \<Rightarrow> 0 | r # _ \<Rightarrow> length r)"

definition col :: "matrix \<Rightarrow> nat \<Rightarrow> vec" where
  "col M j = map (\<lambda>r. r ! j) M"

definition matmul :: "matrix \<Rightarrow> matrix \<Rightarrow> matrix" where
  \<comment> \<open>\<open>np.matmul\<close> of two-dimensional arrays: rows of \<open>A\<close> against columns of \<open>B\<close>\<close>
  "matmul A B = map (\<lambda>r. map (\<lambda>j. dot r (col B j)) [0..<ncols B]) A"

definition mtranspose :: "matrix \<Rightarrow> matrix" where
  "mtranspose M = map (col M) [0..<ncols M]"

definition zeros :: "nat \<Rightarrow> nat \<Rightarrow> matrix" where
  "zeros m k = replicate m (replicate k 0)"

definition zeros_like :: "matrix \<Rightarrow> matrix" where
  "zeros_like M = map (map (\<lambda>_. 0)) M"

definition identity :: "nat \<Rightarrow> matrix" where
  "identity k = map (\<lambda>i. map (\<lambda>j. if i = j then 1 else 0) [0..<k]) [0..<k]"

definition diag :: "matrix \<Rightarrow> vec" where
  "diag M = map (\<lambda>i. M ! i ! i) [0..<length M]"

definition trace :: "matrix \<Rightarrow> real" where
  "trace M = sum_list (diag M)"

definition is_mat :: "nat \<Rightarrow> nat \<Rightarrow> matrix \<Rightarrow> bool" where
  "is_mat m k M = (length M = m \<and> list_all (\<lambda>r. length r = k) M)"

definition quad :: "vec \<Rightarrow> matrix \<Rightarrow> real" where
  \<comment> \<open>the quadratic form \<open>d\<^sup>T M d\<close> of the score\<close>
  "quad d M = dot d (map (\<lambda>r. dot r d) M)"

definition del_col :: "nat \<Rightarrow> matrix \<Rightarrow> matrix" where
  "del_col j M = map (\<lambda>r. take j r @ drop (Suc j) r) M"

definition del_row :: "nat \<Rightarrow> matrix \<Rightarrow> matrix" where
  "del_row i M = take i M @ drop (Suc i) M"

text \<open>
  \<open>np.linalg.det\<close> and \<open>np.linalg.inv\<close> in exact arithmetic: the determinant by
  expansion along the first row, the inverse as the adjugate over the determinant.
\<close>

function det :: "matrix \<Rightarrow> real" where
  "det [] = 1"
| "det (r # rs) =
     sum_list (map (\<lambda>j. (- 1) ^ j * (r ! j) * det (del_col j rs)) [0..<length r])"
  by pat_completeness auto
termination
  by (relation "measure length") (auto simp: del_col_def)

definition mat_inv :: "matrix \<Rightarrow> matrix" where
  "mat_inv M =
     map (\<lambda>i. map (\<lambda>j. (- 1) ^ (i + j) * det (del_col i (del_row j M)) / det M)
                   [0..<length M]) [0..<length M]"

subsection \<open>The object\<close>

text \<open>
  The attributes of \<open>CoreMahalanobis\<close>. \<open>self.mean\<close> and \<open>self.C\<close> start as the
  integer \<open>0\<close> and become arrays with the first batch: \<open>None\<close> stands for the integer.
  \<open>self.score\<close> and \<open>self.prediction\<close> do not exist before the first batch.
\<close>

record detector =
  self_threshold :: real
  self_n_components :: int
  self_max_n :: int
  self_n_stdev :: real
  self_start_clip :: int
  self_clip :: "(vec \<times> vec) option"
  self_mean :: "vec option"
  self_C :: "matrix option"
  self_n :: int
  self_score :: "vec option"
  self_prediction :: "int list option"

definition init :: "real \<Rightarrow> int \<Rightarrow> real \<Rightarrow> int \<Rightarrow> int \<Rightarrow> detector" where
  \<comment> \<open>\<open>__init__(self, threshold=25, n_components=3, n_stdev=3, start_clip=50, max_n=-1)\<close>\<close>
  "init threshold n_components n_stdev start_clip max_n =
     \<lparr> self_threshold = threshold, self_n_components = n_components, self_max_n = max_n,
       self_n_stdev = n_stdev, self_start_clip = start_clip,
       self_clip = None, self_mean = None, self_C = None, self_n = 0,
       self_score = None, self_prediction = None \<rparr>"

definition configure :: "real \<Rightarrow> int \<Rightarrow> real \<Rightarrow> int \<Rightarrow> int \<Rightarrow> error + detector" where
  \<comment> \<open>construction as an operation that may fail: \<open>__init__\<close> has no \<open>raise\<close>\<close>
  "configure threshold n_components n_stdev start_clip max_n =
     Inr (init threshold n_components n_stdev start_clip max_n)"

subsection \<open>The steps of \<open>_get_preds\<close>\<close>

type_synonym eigh_fn = "matrix \<Rightarrow> int \<Rightarrow> int \<Rightarrow> error + (vec \<times> matrix)"

text \<open>
  \<open>scipy.linalg.eigh(a, eigvals=(lo, hi))\<close> is a library routine: the detector is
  parametrised by it. It raises (\<open>Inl\<close>) or returns the eigenvalues with the indices
  \<open>lo..hi\<close> in ascending order and a matrix whose columns are their eigenvectors.
\<close>

definition EPSILON :: real where
  "EPSILON = 1 / 10 ^ 8"

definition effective_n :: "detector \<Rightarrow> int" where
  \<comment> \<open>the local \<open>n\<close>\<close>
  "effective_n self =
     (if self_max_n self > 0 then min (self_n self) (self_max_n self) else self_n self)"

definition np_clip :: "vec \<Rightarrow> vec \<Rightarrow> vec \<Rightarrow> vec" where
  \<comment> \<open>\<open>np.clip(x, lo, hi)\<close> on one row: \<open>minimum(maximum(x, lo), hi)\<close>\<close>
  "np_clip lo hi x = map2 (\<lambda>h y. min y h) hi (map2 (\<lambda>l y. max y l) lo x)"

definition clip_X :: "detector \<Rightarrow> matrix \<Rightarrow> error + matrix" where
  \<comment> \<open>\<open>self.clip[0]\<close> on \<open>None\<close> is a TypeError; bounds of another width do not broadcast\<close>
  "clip_X self X =
     (if self_n self > self_start_clip self then
        (case self_clip self of
           None \<Rightarrow> Inl TypeError
         | Some (lo, hi) \<Rightarrow>
             if list_all (\<lambda>r. length r = length lo \<and> length r = length hi) X
             then Inr (map (np_clip lo hi) X) else Inl ValueError)
      else Inr X)"

fun cumsum_from :: "vec \<Rightarrow> matrix \<Rightarrow> matrix" where
  "cumsum_from acc [] = []"
| "cumsum_from acc (x # xs) = vadd acc x # cumsum_from (vadd acc x) xs"

definition cumsum :: "matrix \<Rightarrow> matrix" where
  \<comment> \<open>\<open>X.cumsum(axis=0)\<close>\<close>
  "cumsum X = (case X of [] \<Rightarrow> [] | x # xs \<Rightarrow> x # cumsum_from x xs)"

definition roll_partial_means :: "matrix \<Rightarrow> matrix" where
  "roll_partial_means Xclip =
     map (\<lambda>i. vscale (1 / (real i + 1)) (cumsum Xclip ! i)) [0..<length Xclip]"

definition new_means :: "vec \<Rightarrow> int \<Rightarrow> matrix \<Rightarrow> matrix" where
  "new_means mean0 n Xclip =
     map (\<lambda>i. vadd mean0 (vscale ((real i + 1) / (real i + real_of_int n + 1))
                                   (vsub (roll_partial_means Xclip ! i) mean0)))
         [0..<length Xclip]"

definition new_means_offset :: "vec \<Rightarrow> matrix \<Rightarrow> matrix" where
  "new_means_offset mean0 nm = mean0 # butlast nm"

definition cov_B :: "int \<Rightarrow> matrix \<Rightarrow> matrix \<Rightarrow> matrix list" where
  \<comment> \<open>the first \<open>B\<close>: the weighted outer products of the deviations\<close>
  "cov_B n Xclip nmo =
     map (\<lambda>i. mscale ((real_of_int n + real i) / (real_of_int n + real i + 1))
                      (outer (vsub (Xclip ! i) (nmo ! i)) (vsub (Xclip ! i) (nmo ! i))))
         [0..<length Xclip]"

definition msum :: "nat \<Rightarrow> matrix list \<Rightarrow> matrix" where
  \<comment> \<open>\<open>B.sum(axis=0)\<close> of \<open>p \<times> p\<close> matrices\<close>
  "msum p Bs = foldr madd Bs (zeros p p)"

definition cov_batch :: "int \<Rightarrow> nat \<Rightarrow> matrix \<Rightarrow> matrix list \<Rightarrow> matrix" where
  "cov_batch n p C0 Bs =
     (let nb = length Bs; den = real_of_int n + max 1 (real nb - 1)
      in madd (mscale ((real_of_int n - 1) / den) C0) (mscale (1 / den) (msum p Bs)))"

definition inv_B :: "int \<Rightarrow> matrix \<Rightarrow> matrix \<Rightarrow> matrix list" where
  \<comment> \<open>the second \<open>B\<close>: the rank-one increments of the projected covariance\<close>
  "inv_B n proj_x_clip proj_means =
     map (\<lambda>i. mscale (1 / (real_of_int n + real i + 1))
                      (outer (vsub (proj_x_clip ! i) (proj_means ! i))
                             (vsub (proj_x_clip ! i) (proj_means ! i))))
         [0..<length proj_x_clip]"

definition cons_row :: "matrix \<Rightarrow> error + matrix list \<Rightarrow> error + matrix list" where
  "cons_row M r = (case r of Inl e \<Rightarrow> Inl e | Inr Ms \<Rightarrow> Inr (M # Ms))"

text \<open>
  The loop \<open>for i, b in enumerate(B)\<close>, started at row \<open>i\<close> with \<open>m\<close> rows to go.
  \<open>c_inv\<close> is \<open>None\<close> or the inverse stored for the previous row, \<open>all_C_inv[i-1]\<close>;
  a row that stores nothing keeps the zero matrix of \<open>np.zeros_like(B)\<close>. The Python
  float division \<open>(n + i - 1.)/float(n + i - 2.)\<close> raises on a zero divisor; the numpy
  scalar division by \<open>1 + trace\<close> does not raise.
\<close>

fun inv_loop :: "int \<Rightarrow> matrix list \<Rightarrow> nat \<Rightarrow> matrix option \<Rightarrow> matrix \<Rightarrow> nat
                  \<Rightarrow> error + matrix list" where
  "inv_loop n B i c_inv proj_cov 0 = Inr []"
| "inv_loop n B i None proj_cov (Suc m) =
     (if \<bar>det proj_cov\<bar> > EPSILON then
        cons_row (mat_inv proj_cov) (inv_loop n B (Suc i) (Some (mat_inv proj_cov)) proj_cov m)
      else if n + int i = 0 then
        cons_row (zeros_like (B ! i)) (inv_loop n B (Suc i) None proj_cov m)
      else
        cons_row (zeros_like (B ! i))
          (inv_loop n B (Suc i) None
             (madd (mscale ((real_of_int n + real i - 1) / (real_of_int n + real i)) proj_cov)
                   (B ! i)) m))"
| "inv_loop n B i (Some prev) proj_cov (Suc m) =
     (if n + int i - 2 = 0 then Inl ZeroDivisionError
      else
        let c_inv = mscale ((real_of_int n + real i - 1) / (real_of_int n + real i - 2)) prev;
            BC1 = matmul (B ! (i - 1)) c_inv;
            new_inv = msub c_inv (mscale (1 / (1 + trace BC1)) (matmul c_inv BC1))
        in cons_row new_inv (inv_loop n B (Suc i) (Some new_inv) proj_cov m))"

text \<open>The local variables of a call that reaches the update of the attributes.\<close>

record locals =
  l_n :: int
  l_Xclip :: matrix
  l_new_means :: matrix
  l_new_means_offset :: matrix
  l_cov_batch :: matrix
  l_eigvects :: matrix
  l_proj_x :: matrix
  l_proj_means :: matrix
  l_proj_cov :: matrix
  l_B :: "matrix list"
  l_all_C_inv :: "matrix list"
  l_score :: vec
  l_prediction :: "int list"

text \<open>
  numpy arrays are rectangular and carry their shape. A batch whose width differs from the
  width of \<open>self.mean\<close> and \<open>self.C\<close> makes the call raise before any attribute is
  assigned (where a width of one broadcasts, a later \<open>matmul\<close> raises): the model raises
  \<open>ValueError\<close> at once. An empty batch raises \<open>IndexError\<close> at
  \<open>new_means_offset[0] = self.mean\<close>; a list of rows does not record the width of an
  empty batch. \<open>eigh\<close> returns a matrix with \<open>p\<close> rows and one column for each index
  asked for; any other shape could not be multiplied with the batch.
\<close>

definition shape_ok :: "detector \<Rightarrow> nat \<Rightarrow> matrix \<Rightarrow> bool" where
  \<comment> \<open>the batch is an array of width \<open>p\<close>, and so are the arrays of the object\<close>
  "shape_ok self p X =
     (list_all (\<lambda>r. length r = p) X \<and>
      (case self_mean self of None \<Rightarrow> True | Some m \<Rightarrow> length m = p) \<and>
      (case self_C self of None \<Rightarrow> True | Some C \<Rightarrow> is_mat p p C))"

definition scoring :: "detector \<Rightarrow> int \<Rightarrow> matrix \<Rightarrow> matrix \<Rightarrow> matrix \<Rightarrow> matrix \<Rightarrow> matrix list
                        \<Rightarrow> matrix \<Rightarrow> matrix \<Rightarrow> matrix \<Rightarrow> matrix \<Rightarrow> matrix \<Rightarrow> locals" where
  \<comment> \<open>lines 311 to 313: the scores and the predictions, from the inverses\<close>
  "scoring self n Xclip nm nmo covb all_C_inv eigvects proj_x proj_x_clip proj_means proj_cov =
     (let x_diff = msub proj_x proj_means;
          score = map (\<lambda>i. quad (x_diff ! i) (all_C_inv ! i)) [0..<length x_diff];
          prediction = map (\<lambda>s. if s > self_threshold self then 1 else 0) score
      in \<lparr> l_n = n, l_Xclip = Xclip, l_new_means = nm, l_new_means_offset = nmo,
           l_cov_batch = covb, l_eigvects = eigvects, l_proj_x = proj_x,
           l_proj_means = proj_means, l_proj_cov = proj_cov,
           l_B = inv_B n proj_x_clip proj_means, l_all_C_inv = all_C_inv,
           l_score = score, l_prediction = prediction \<rparr>)"

definition projection :: "detector \<Rightarrow> int \<Rightarrow> nat \<Rightarrow> matrix \<Rightarrow> matrix \<Rightarrow> matrix \<Rightarrow> matrix
                           \<Rightarrow> matrix \<Rightarrow> matrix \<Rightarrow> error + locals" where
  \<comment> \<open>lines 217 to 287: the projections and the loop of the inverses\<close>
  "projection self n k X Xclip nm nmo covb eigvects =
     (let proj_x = matmul X eigvects;
          proj_x_clip = matmul Xclip eigvects;
          proj_means = matmul nmo eigvects;
          proj_cov = (case self_C self of
                        None \<Rightarrow> zeros k k
                      | Some C \<Rightarrow> matmul (mtranspose eigvects) (matmul C eigvects));
          B = inv_B n proj_x_clip proj_means
      in case inv_loop n B 0 None proj_cov (length B) of
           Inl e \<Rightarrow> Inl e
         | Inr all_C_inv \<Rightarrow>
             Inr (scoring self n Xclip nm nmo covb all_C_inv eigvects
                    proj_x proj_x_clip proj_means proj_cov))"

definition moments :: "detector \<Rightarrow> nat \<Rightarrow> matrix \<Rightarrow> matrix \<times> matrix \<times> matrix" where
  \<comment> \<open>lines 140 to 149: the rolling means, their offset and \<open>cov_batch\<close>\<close>
  "moments self p Xclip =
     (let n = effective_n self;
          mean0 = (case self_mean self of None \<Rightarrow> replicate p 0 | Some m \<Rightarrow> m);
          C0 = (case self_C self of None \<Rightarrow> zeros p p | Some C \<Rightarrow> C);
          nm = new_means mean0 n Xclip;
          nmo = new_means_offset mean0 nm
      in (nm, nmo, cov_batch n p C0 (cov_B n Xclip nmo)))"

definition get_locals :: "eigh_fn \<Rightarrow> detector \<Rightarrow> matrix \<Rightarrow> error + locals" where
  "get_locals eigh self X =
     (case clip_X self X of
        Inl e \<Rightarrow> Inl e
      | Inr Xclip \<Rightarrow>
          if X = [] then Inl IndexError
          else
            let p = length (hd X);
                n_components = min (self_n_components self) (int p)
            in if \<not> shape_ok self p X then Inl ValueError
               else
                 (case moments self p Xclip of (nm, nmo, covb) \<Rightarrow>
                    (case eigh covb (int p - n_components) (int p - 1) of
                       Inl e \<Rightarrow> Inl e
                     | Inr (eigvals, eigvects) \<Rightarrow>
                         if \<not> (0 \<le> n_components \<and> is_mat p (nat n_components) eigvects)
                         then Inl ValueError
                         else projection self (effective_n self) (nat n_components)
                                X Xclip nm nmo covb eigvects)))"

text \<open>
  The standard deviations are the real square roots of the diagonal of \<open>cov_batch\<close>,
  which is never negative for a reachable detector (lemma \<open>stdev_defined\<close>).
\<close>

definition commit :: "detector \<Rightarrow> nat \<Rightarrow> locals \<Rightarrow> detector" where
  \<comment> \<open>lines 303 to 313: the update of the attributes\<close>
  "commit self nb L =
     (let mean' = last (l_new_means L);
          stdev = map sqrt (diag (l_cov_batch L));
          n' = self_n self + int nb
      in self\<lparr> self_mean := Some mean',
               self_C := Some (l_cov_batch L),
               self_n := n',
               self_clip :=
                 (if n' > self_start_clip self
                  then Some (vsub mean' (vscale (self_n_stdev self) stdev),
                             vadd mean' (vscale (self_n_stdev self) stdev))
                  else self_clip self),
               self_score := Some (l_score L),
               self_prediction := Some (l_prediction L) \<rparr>)"

definition get_preds :: "eigh_fn \<Rightarrow> detector \<Rightarrow> matrix \<Rightarrow> (error + int list) \<times> detector" where
  "get_preds eigh self X =
     (case get_locals eigh self X of
        Inl e \<Rightarrow> (Inl e, self)
      | Inr L \<Rightarrow> (Inr (l_prediction L), commit self (length X) L))"

subsection \<open>Runs of the detector\<close>

text \<open>
  The states a detector passes through: the state after construction, and the state
  after any further call, whether the call returned or raised.
\<close>

inductive reachable :: "eigh_fn \<Rightarrow> detector \<Rightarrow> bool" for eigh :: eigh_fn where
  reachable_init: "reachable eigh (init threshold n_components n_stdev start_clip max_n)"
| reachable_call: "reachable eigh self \<Longrightarrow> reachable eigh (snd (get_preds eigh self X))"

fun process_all :: "eigh_fn \<Rightarrow> detector \<Rightarrow> matrix list \<Rightarrow> detector" where
  \<comment> \<open>successive calls, one per batch\<close>
  "process_all eigh self [] = self"
| "process_all eigh self (X # Xs) = process_all eigh (snd (get_preds eigh self X)) Xs"

definition eigh1 :: eigh_fn where
  \<comment> \<open>the eigendecomposition of a \<open>1 \<times> 1\<close> matrix: its entry, with the eigenvector \<open>[1]\<close>\<close>
  "eigh1 M lo hi =
     (case M of
        [[c]] \<Rightarrow> if lo = 0 \<and> hi = 0 then Inr ([c], [[1]]) else Inl ValueError
      | _ \<Rightarrow> Inl LinAlgError)"

definition eigh_fails_on :: "matrix \<Rightarrow> eigh_fn" where
  \<comment> \<open>\<open>eigh1\<close>, except that it raises on one matrix\<close>
  "eigh_fails_on A M lo hi = (if M = A then Inl LinAlgError else eigh1 M lo hi)"

subsection \<open>Reference notions\<close>

text \<open>The sample mean and the sample covariance (divisor \<open>N - 1\<close>) of \<open>N\<close> rows of width \<open>p\<close>.\<close>

definition vsum :: "nat \<Rightarrow> matrix \<Rightarrow> vec" where
  "vsum p xs = foldr vadd xs (replicate p 0)"

definition sample_mean :: "nat \<Rightarrow> matrix \<Rightarrow> vec" where
  "sample_mean p xs = vscale (1 / real (length xs)) (vsum p xs)"

definition sample_cov :: "nat \<Rightarrow> matrix \<Rightarrow> matrix" where
  "sample_cov p xs =
     mscale (1 / (real (length xs) - 1))
       (msum p (map (\<lambda>x. outer (vsub x (sample_mean p xs)) (vsub x (sample_mean p xs))) xs))"

text \<open>
  The projected covariance row by row: \<open>cov_step\<close> is the update of \<open>proj_cov\<close> in the
  loop (nothing is folded in at the very first observation), and \<open>running_cov n B i P j\<close>
  is the matrix \<open>j\<close> rows after row \<open>i\<close>, where it was \<open>P\<close>.
\<close>

definition cov_step :: "int \<Rightarrow> matrix list \<Rightarrow> nat \<Rightarrow> matrix \<Rightarrow> matrix" where
  "cov_step n B i P =
     (if n + int i = 0 then P
      else madd (mscale ((real_of_int n + real i - 1) / (real_of_int n + real i)) P) (B ! i))"

fun running_cov :: "int \<Rightarrow> matrix list \<Rightarrow> nat \<Rightarrow> matrix \<Rightarrow> nat \<Rightarrow> matrix" where
  "running_cov n B i P 0 = P"
| "running_cov n B i P (Suc j) = running_cov n B (Suc i) (cov_step n B i P) j"

definition is_inverse :: "nat \<Rightarrow> matrix \<Rightarrow> matrix \<Rightarrow> bool" where
  \<comment> \<open>\<open>Y\<close> is the inverse of the \<open>k \<times> k\<close> matrix \<open>A\<close>\<close>
  "is_inverse k A Y = (is_mat k k Y \<and> matmul A Y = identity k \<and> matmul Y A = identity k)"

definition n_comp :: "detector \<Rightarrow> matrix \<Rightarrow> int" where
  \<comment> \<open>the local \<open>n_components = min(self.n_components, p)\<close>\<close>
  "n_comp self X = min (self_n_components self) (int (length (hd X)))"

subsection \<open>Concrete detectors\<close>

definition st2 :: detector where
  \<comment> \<open>the default detector after the batch \<open>[[0], [2]]\<close>\<close>
  "st2 = \<lparr> self_threshold = 25, self_n_components = 3, self_max_n = - 1,
       self_n_stdev = 3, self_start_clip = 50,
       self_clip = None, self_mean = Some [1], self_C = Some [[2]], self_n = 2,
       self_score = Some [0, 0], self_prediction = Some [0, 0] \<rparr>"

definition st3 :: detector where
  \<comment> \<open>a detector with \<open>start_clip = 2\<close> after the batch \<open>[[0], [2], [1]]\<close>\<close>
  "st3 = \<lparr> self_threshold = 25, self_n_components = 3, self_max_n = - 1,
       self_n_stdev = 3, self_start_clip = 2,
       self_clip = Some ([- 2], [4]), self_mean = Some [1], self_C = Some [[1]], self_n = 3,
       self_score = Some [0, 0, 0], self_prediction = Some [0, 0, 0] \<rparr>"

definition st5 :: detector where
  \<comment> \<open>a detector with threshold \<open>75/14\<close> after the batch \<open>[[0], [2], [1], [5], [7]]\<close>\<close>
  "st5 = \<lparr> self_threshold = 75 / 14, self_n_components = 1, self_max_n = - 1,
       self_n_stdev = 3, self_start_clip = 50,
       self_clip = None, self_mean = Some [3], self_C = Some [[17 / 2]], self_n = 5,
       self_score = Some [0, 0, 0, 16, 75 / 14], self_prediction = Some [0, 0, 0, 1, 0] \<rparr>"

definition st6 :: detector where
  \<comment> \<open>five observations absorbed, effective sample size capped at two\<close>
  "st6 = \<lparr> self_threshold = 25, self_n_components = 3, self_max_n = 2,
       self_n_stdev = 3, self_start_clip = 50,
       self_clip = None, self_mean = Some [3], self_C = Some [[17 / 2]], self_n = 5,
       self_score = Some [0, 0, 0, 16, 75 / 14], self_prediction = Some [0, 0, 0, 0, 0] \<rparr>"

definition L6 :: locals where
  \<comment> \<open>the locals of the call of \<open>st6\<close> on the batch \<open>[[6], [0]]\<close>\<close>
  "L6 = \<lparr> l_n = 2, l_Xclip = [[6], [0]], l_new_means = [[4], [3]],
       l_new_means_offset = [[3], [4]], l_cov_batch = [[53 / 6]],
       l_eigvects = [[1]], l_proj_x = [[6], [0]],
       l_proj_means = [[3], [4]], l_proj_cov = [[17 / 2]],
       l_B = [[[3]], [[4]]],
       l_all_C_inv = [[[2 / 17]], [[4 / 29]]], l_score = [18 / 17, 64 / 29],
       l_prediction = [0, 0] \<rparr>"

definition L5 :: locals where
  \<comment> \<open>the locals of the first call of that detector, on \<open>[[0], [2], [1], [5], [7]]\<close>\<close>
  "L5 = \<lparr> l_n = 0, l_Xclip = [[0], [2], [1], [5], [7]],
        l_new_means = [[0], [1], [1], [2], [3]],
        l_new_means_offset = [[0], [0], [1], [1], [2]],
        l_cov_batch = [[17 / 2]], l_eigvects = [[1]],
        l_proj_x = [[0], [2], [1], [5], [7]],
        l_proj_means = [[0], [0], [1], [1], [2]], l_proj_cov = [[0]],
        l_B = [[[0]], [[2]], [[0]], [[4]], [[5]]],
        l_all_C_inv = [[[0]], [[0]], [[1 / 2]], [[1]], [[3 / 14]]],
        l_score = [0, 0, 0, 16, 75 / 14], l_prediction = [0, 0, 0, 1, 0] \<rparr>"

definition L7 :: locals where
  \<comment> \<open>the locals of the call of \<open>st5\<close> on the batch \<open>[[6], [0]]\<close>\<close>
  "L7 = \<lparr> l_n = 5, l_Xclip = [[6], [0]], l_new_means = [[7 / 2], [3]],
        l_new_means_offset = [[3], [7 / 2]], l_cov_batch = [[26 / 3]],
        l_eigvects = [[1]], l_proj_x = [[6], [0]],
        l_proj_means = [[3], [7 / 2]], l_proj_cov = [[17 / 2]],
        l_B = [[[3 / 2]], [[7 / 4]]],
        l_all_C_inv = [[[2 / 17]], [[10 / 83]]],
        l_score = [18 / 17, 245 / 166], l_prediction = [0, 0] \<rparr>"

definition rank_one :: "nat \<Rightarrow> matrix \<Rightarrow> bool" where
  \<comment> \<open>a multiple of the outer product of a vector of length \<open>k\<close> with itself\<close>
  "rank_one k M = (\<exists>c d. M = mscale c (outer d d) \<and> length d = k)"

definition matvec :: "matrix \<Rightarrow> vec \<Rightarrow> vec" where
  \<comment> \<open>the product of a matrix with a vector\<close>
  "matvec M x = map (\<lambda>r. dot r x) M"

definition psd :: "nat \<Rightarrow> matrix \<Rightarrow> bool" where
  \<comment> \<open>a \<open>k \<times> k\<close> matrix whose quadratic form is nowhere negative\<close>
  "psd k M = (is_mat k k M \<and> (\<forall>x. length x = k \<longrightarrow> 0 \<le> quad x M))"

definition psd_rank_one :: "nat \<Rightarrow> matrix \<Rightarrow> bool" where
  \<comment> \<open>a multiple, by a factor that is not negative, of an outer product \<open>d d\<^sup>T\<close>\<close>
  "psd_rank_one k M = (\<exists>c d. M = mscale c (outer d d) \<and> length d = k \<and> 0 \<le> c)"

section \<open>Properties\<close>

subsection \<open>Unfolding a call\<close>

lemmas arr_defs = vadd_def vsub_def vscale_def madd_def msub_def mscale_def dot_def outer_def
  ncols_def col_def matmul_def mtranspose_def zeros_def zeros_like_def diag_def trace_def
  is_mat_def quad_def del_col_def del_row_def mat_inv_def

lemmas step_defs = EPSILON_def effective_n_def np_clip_def clip_X_def cumsum_def
  roll_partial_means_def new_means_def new_means_offset_def cov_B_def msum_def cov_batch_def
  inv_B_def cons_row_def shape_ok_def scoring_def projection_def moments_def get_locals_def
  commit_def get_preds_def

lemma get_preds_Inr:
  "get_preds eigh self X = (Inr preds, self') \<Longrightarrow>
     \<exists>L. get_locals eigh self X = Inr L \<and> preds = l_prediction L \<and>
         self' = commit self (length X) L"
  by (auto simp: get_preds_def split: sum.splits)

lemma get_preds_cases:
  obtains e where "get_preds eigh self X = (Inl e, self)"
  | L where "get_locals eigh self X = Inr L"
      "get_preds eigh self X = (Inr (l_prediction L), commit self (length X) L)"
  by (cases "get_locals eigh self X") (auto simp: get_preds_def)

lemma get_locals_InrE:
  assumes "get_locals eigh self X = Inr L"
  obtains Xclip nm nmo covb eigvals V invs where
    "clip_X self X = Inr Xclip" "X \<noteq> []" "shape_ok self (length (hd X)) X"
    "moments self (length (hd X)) Xclip = (nm, nmo, covb)"
    "eigh covb (int (length (hd X)) - n_comp self X) (int (length (hd X)) - 1)
       = Inr (eigvals, V)"
    "0 \<le> n_comp self X" "is_mat (length (hd X)) (nat (n_comp self X)) V"
    "inv_loop (effective_n self) (inv_B (effective_n self) (matmul Xclip V) (matmul nmo V))
       0 None
       (case self_C self of None \<Rightarrow> zeros (nat (n_comp self X)) (nat (n_comp self X))
                          | Some C \<Rightarrow> matmul (mtranspose V) (matmul C V))
       (length (inv_B (effective_n self) (matmul Xclip V) (matmul nmo V))) = Inr invs"
    "L = scoring self (effective_n self) Xclip nm nmo covb invs V (matmul X V)
           (matmul Xclip V) (matmul nmo V)
           (case self_C self of None \<Rightarrow> zeros (nat (n_comp self X)) (nat (n_comp self X))
                          | Some C \<Rightarrow> matmul (mtranspose V) (matmul C V))"
  using assms unfolding get_locals_def projection_def Let_def n_comp_def
  by (auto split: sum.splits if_splits prod.splits)

lemma locals_prediction:
  assumes "get_locals eigh self X = Inr L"
  shows "l_prediction L = map (\<lambda>s. if s > self_threshold self then 1 else 0) (l_score L)"
  using assms by (elim get_locals_InrE) (simp add: scoring_def Let_def)

lemma locals_n:
  assumes "get_locals eigh self X = Inr L"
  shows "l_n L = effective_n self"
  using assms by (elim get_locals_InrE) (simp add: scoring_def Let_def)

lemma clip_X_length: "clip_X self X = Inr Xclip \<Longrightarrow> length Xclip = length X"
  by (auto simp: clip_X_def split: if_splits option.splits)

lemma moments_lengths:
  assumes "moments self p Xclip = (nm, nmo, covb)" "Xclip \<noteq> []"
  shows "length nm = length Xclip" "length nmo = length Xclip"
  using assms by (auto simp: moments_def Let_def new_means_def new_means_offset_def)

lemma length_matmul [simp]: "length (matmul A B) = length A"
  by (simp add: matmul_def)

lemma locals_score_length:
  assumes "get_locals eigh self X = Inr L"
  shows "length (l_score L) = length X"
  using assms
proof (elim get_locals_InrE)
  fix Xclip nm nmo covb eigvals V invs
  assume a: "clip_X self X = Inr Xclip" "X \<noteq> []"
      "moments self (length (hd X)) Xclip = (nm, nmo, covb)"
    and L: "L = scoring self (effective_n self) Xclip nm nmo covb invs V (matmul X V)
           (matmul Xclip V) (matmul nmo V)
           (case self_C self of None \<Rightarrow> zeros (nat (n_comp self X)) (nat (n_comp self X))
                          | Some C \<Rightarrow> matmul (mtranspose V) (matmul C V))"
  have "length Xclip = length X" using a(1) by (rule clip_X_length)
  moreover from this a(2) have "Xclip \<noteq> []" by auto
  ultimately have "length nmo = length X" using moments_lengths(2)[OF a(3)] by simp
  then show ?thesis unfolding L by (simp add: scoring_def Let_def msub_def)
qed

lemma commit_fields:
  "self_start_clip (commit self nb L) = self_start_clip self"
  "self_n (commit self nb L) = self_n self + int nb"
  "self_max_n (commit self nb L) = self_max_n self"
  "self_threshold (commit self nb L) = self_threshold self"
  "self_C (commit self nb L) = Some (l_cov_batch L)"
  "self_mean (commit self nb L) = Some (last (l_new_means L))"
  by (simp_all add: commit_def Let_def)

lemma commit_clip:
  "self_clip (commit self nb L) =
     (if self_n self + int nb > self_start_clip self
      then Some (vsub (last (l_new_means L))
                   (vscale (self_n_stdev self) (map sqrt (diag (l_cov_batch L)))),
                 vadd (last (l_new_means L))
                   (vscale (self_n_stdev self) (map sqrt (diag (l_cov_batch L)))))
      else self_clip self)"
  by (simp add: commit_def Let_def)

subsection \<open>Concrete calls\<close>

lemma first_call: "get_preds eigh1 (init 25 3 3 50 (- 1)) [[0], [2]] = (Inr [0, 0], st2)"
  by (simp add: step_defs arr_defs init_def eigh1_def Let_def st2_def)

lemma second_call:
  "get_preds eigh1 st2 [[1]] =
     (Inr [0], st2\<lparr> self_C := Some [[2 / 3]], self_n := 3, self_score := Some [0],
                    self_prediction := Some [0] \<rparr>)"
  by (simp add: step_defs arr_defs init_def eigh1_def Let_def st2_def)

lemma single_call:
  "get_preds eigh1 (init 25 3 3 50 (- 1)) [[0], [2], [1]] =
     (Inr [0, 0, 0], st2\<lparr> self_C := Some [[1]], self_n := 3, self_score := Some [0, 0, 0],
                          self_prediction := Some [0, 0, 0] \<rparr>)"
  by (simp add: step_defs arr_defs init_def eigh1_def Let_def st2_def)

lemma failing_call: "get_preds (eigh_fails_on [[2 / 3]]) st2 [[1]] = (Inl LinAlgError, st2)"
  by (simp add: step_defs arr_defs init_def eigh1_def eigh_fails_on_def Let_def st2_def)

lemma warm_call: "get_preds eigh1 (init 25 3 3 2 (- 1)) [[0], [2], [1]] = (Inr [0, 0, 0], st3)"
  by (simp add: step_defs arr_defs init_def eigh1_def Let_def st3_def)

lemma five_rows:
  "get_preds eigh1 (init (75 / 14) 1 3 50 (- 1)) [[0], [2], [1], [5], [7]]
     = (Inr [0, 0, 0, 1, 0], st5)"
  by (simp add: step_defs arr_defs init_def eigh1_def Let_def st5_def)

lemma capped_call: "get_locals eigh1 st6 [[6], [0]] = Inr L6"
  by (simp add: step_defs arr_defs eigh1_def Let_def st6_def L6_def)

lemma sample_021: "sample_mean 1 [[0], [2], [1]] = [1]" "sample_cov 1 [[0], [2], [1]] = [[1]]"
  by (simp_all add: sample_cov_def sample_mean_def vsum_def msum_def arr_defs)

lemma reachable_st3: "reachable eigh1 st3"
  using reachable_call[OF reachable_init, of eigh1 25 3 3 2 "- 1" "[[0], [2], [1]]"]
  by (simp add: warm_call)

subsection \<open>Covariance tracking\<close>

text \<open>
  Claim C1 (the tracked mean and covariance are the sample mean and the sample covariance
  of everything absorbed, for any batch sizes). The notebook documents the update
  \<open>C\<^sub>n\<^sub>+\<^sub>b = (n-1)/(n+b-1) C\<^sub>n + 1/(n+b-1) \<Sum>\<dots>\<close>; the code divides by
  \<open>n + max(1, nb - 1)\<close>, which is \<open>n + 1\<close> and not \<open>n\<close> for a batch of one row.
  The default detector fed \<open>[[0], [2]]\<close> and then \<open>[[1]]\<close> holds the mean \<open>[1]\<close>, the
  sample mean, and the covariance \<open>[[2/3]]\<close>, while the sample covariance of the three
  observations is \<open>[[1]]\<close>.
\<close>

theorem single_row_batch_covariance:
  "self_C (process_all eigh1 (init 25 3 3 50 (- 1)) [[[0], [2]], [[1]]]) = Some [[2 / 3]] \<and>
   self_mean (process_all eigh1 (init 25 3 3 50 (- 1)) [[[0], [2]], [[1]]]) = Some [1] \<and>
   self_n (process_all eigh1 (init 25 3 3 50 (- 1)) [[[0], [2]], [[1]]]) = 3 \<and>
   sample_mean 1 [[0], [2], [1]] = [1] \<and>
   sample_cov 1 [[0], [2], [1]] = [[1]]"
proof -
  have "self_C (process_all eigh1 (init 25 3 3 50 (- 1)) [[[0], [2]], [[1]]]) = Some [[2 / 3]] \<and>
    self_mean (process_all eigh1 (init 25 3 3 50 (- 1)) [[[0], [2]], [[1]]]) = Some [1] \<and>
    self_n (process_all eigh1 (init 25 3 3 50 (- 1)) [[[0], [2]], [[1]]]) = 3"
    by (simp add: first_call second_call) (simp add: st2_def)
  with sample_021 show ?thesis by blast
qed

text \<open>
  Claim C2 (the final covariance does not depend on how the observations are split into
  batches, clipping inactive). The same three observations give \<open>[[1]]\<close> as one batch and
  \<open>[[2/3]]\<close> as a batch of two followed by a batch of one; no clip bounds exist in
  either run.
\<close>

theorem batch_split_changes_covariance:
  "self_C (process_all eigh1 (init 25 3 3 50 (- 1)) [[[0], [2], [1]]]) = Some [[1]] \<and>
   self_C (process_all eigh1 (init 25 3 3 50 (- 1)) [[[0], [2]], [[1]]]) = Some [[2 / 3]] \<and>
   self_clip (process_all eigh1 (init 25 3 3 50 (- 1)) [[[0], [2]], [[1]]]) = None \<and>
   self_clip (process_all eigh1 (init 25 3 3 50 (- 1)) [[[0], [2], [1]]]) = None"
  by (simp add: first_call second_call single_call) (simp add: st2_def)

subsection \<open>The projection basis\<close>

text \<open>
  Claim C4, as stated (the eigendecomposition is computed on the covariance as of the
  previous call), fails: two solvers that agree on the pre-batch covariance \<open>[[2]]\<close>, and
  differ only on \<open>[[2/3]]\<close>, make the same call end differently.
\<close>

theorem pca_not_on_pre_batch_covariance:
  "self_C st2 = Some [[2]] \<and>
   eigh_fails_on [[2 / 3]] [[2]] 0 0 = eigh1 [[2]] 0 0 \<and>
   get_preds eigh1 st2 [[1]] \<noteq> get_preds (eigh_fails_on [[2 / 3]]) st2 [[1]]"
  by (simp add: second_call failing_call) (simp add: st2_def eigh_fails_on_def)

text \<open>
  Claim C4, amended: in every call that returns, the basis is what \<open>eigh\<close> gives on
  \<open>cov_batch\<close>, the covariance already updated with the batch, which the call stores as
  \<open>self.C\<close>; the indices asked for are \<open>p - k\<close> to \<open>p - 1\<close>, the top of an ascending
  spectrum, with \<open>k = min(n_components, p)\<close>. What is projected on that basis as the
  reference of the scores is the pre-batch covariance, or the zero matrix while
  \<open>self.C\<close> is still the integer \<open>0\<close>.
\<close>

theorem pca_on_batch_covariance:
  assumes "get_locals eigh self X = Inr L"
  shows "(\<exists>eigvals. eigh (l_cov_batch L) (int (length (hd X)) - n_comp self X)
                      (int (length (hd X)) - 1) = Inr (eigvals, l_eigvects L)) \<and>
         self_C (snd (get_preds eigh self X)) = Some (l_cov_batch L) \<and>
         l_proj_cov L =
           (case self_C self of
              None \<Rightarrow> zeros (nat (n_comp self X)) (nat (n_comp self X))
            | Some C \<Rightarrow> matmul (mtranspose (l_eigvects L)) (matmul C (l_eigvects L)))"
  using assms
proof (elim get_locals_InrE)
  fix Xclip nm nmo covb eigvals V invs
  assume e: "eigh covb (int (length (hd X)) - n_comp self X) (int (length (hd X)) - 1)
               = Inr (eigvals, V)"
    and L: "L = scoring self (effective_n self) Xclip nm nmo covb invs V (matmul X V)
           (matmul Xclip V) (matmul nmo V)
           (case self_C self of None \<Rightarrow> zeros (nat (n_comp self X)) (nat (n_comp self X))
                          | Some C \<Rightarrow> matmul (mtranspose V) (matmul C V))"
  have f: "l_cov_batch L = covb" "l_eigvects L = V"
    "l_proj_cov L =
       (case self_C self of None \<Rightarrow> zeros (nat (n_comp self X)) (nat (n_comp self X))
                          | Some C \<Rightarrow> matmul (mtranspose V) (matmul C V))"
    unfolding L by (simp_all add: scoring_def Let_def)
  have "self_C (snd (get_preds eigh self X)) = Some (l_cov_batch L)"
    using assms by (simp add: get_preds_def commit_fields)
  with e f show ?thesis by (auto split: option.splits)
qed

theorem pca_on_batch_covariance_witness:
  "get_locals eigh1 st6 [[6], [0]] = Inr L6 \<and> self_C st6 = Some [[17 / 2]] \<and>
   l_cov_batch L6 = [[53 / 6]] \<and> eigh1 [[53 / 6]] 0 0 = Inr ([53 / 6], [[1]]) \<and>
   self_C (snd (get_preds eigh1 st6 [[6], [0]])) = Some [[53 / 6]] \<and>
   l_proj_cov L6 = [[17 / 2]]"
  using pca_on_batch_covariance[OF capped_call] capped_call
  by (simp add: st6_def L6_def eigh1_def n_comp_def)

subsection \<open>Clipping\<close>

text \<open>
  Claim C5, as stated (\<open>clip\<close> is \<open>None\<close> iff \<open>n \<le> start_clip\<close> in every reachable
  state, and nothing is clipped at \<open>n = 0\<close> whatever \<open>start_clip\<close> is), fails for a
  negative \<open>start_clip\<close>, which the constructor accepts: the fresh detector has
  \<open>n = 0 > start_clip\<close> and no bounds, and its first call tries to clip and raises.
\<close>

theorem negative_start_clip_counterexample:
  "reachable eigh1 (init 25 3 3 (- 1) (- 1)) \<and>
   self_n (init 25 3 3 (- 1) (- 1)) = 0 \<and>
   self_clip (init 25 3 3 (- 1) (- 1)) = None \<and>
   \<not> self_n (init 25 3 3 (- 1) (- 1)) \<le> self_start_clip (init 25 3 3 (- 1) (- 1)) \<and>
   get_preds eigh1 (init 25 3 3 (- 1) (- 1)) [[0]] = (Inl TypeError, init 25 3 3 (- 1) (- 1))"
proof -
  have "reachable eigh1 (init 25 3 3 (- 1) (- 1))" by (rule reachable_init)
  moreover have "self_n (init 25 3 3 (- 1) (- 1)) = 0 \<and>
    self_clip (init 25 3 3 (- 1) (- 1)) = None \<and>
    \<not> self_n (init 25 3 3 (- 1) (- 1)) \<le> self_start_clip (init 25 3 3 (- 1) (- 1)) \<and>
    get_preds eigh1 (init 25 3 3 (- 1) (- 1)) [[0]] = (Inl TypeError, init 25 3 3 (- 1) (- 1))"
    by (simp add: init_def get_preds_def get_locals_def clip_X_def)
  ultimately show ?thesis by blast
qed

lemma reachable_clip_inv:
  assumes "reachable eigh self"
  shows "0 \<le> self_n self \<and>
         (0 \<le> self_start_clip self \<longrightarrow>
            (self_clip self = None \<longleftrightarrow> self_n self \<le> self_start_clip self))"
  using assms
proof (induction rule: reachable.induct)
  case (reachable_init threshold n_components n_stdev start_clip max_n)
  show ?case by (simp add: init_def)
next
  case (reachable_call self X)
  show ?case
  proof (rule get_preds_cases[of eigh self X])
    fix e assume "get_preds eigh self X = (Inl e, self)"
    with reachable_call.IH show ?thesis by simp
  next
    fix L assume "get_locals eigh self X = Inr L"
      and g: "get_preds eigh self X = (Inr (l_prediction L), commit self (length X) L)"
    show ?thesis using reachable_call.IH unfolding g
      by (auto simp: commit_fields commit_clip)
  qed
qed

text \<open>
  Claim C5, amended: for a detector built with \<open>start_clip \<ge> 0\<close>, in every reachable
  state \<open>clip\<close> is \<open>None\<close> iff \<open>n \<le> start_clip\<close>; the batch is left as it is when
  \<open>n \<le> start_clip\<close>, in particular when \<open>n = 0\<close>, and is clamped to the stored bounds
  when \<open>n > start_clip\<close> (a batch of another width than the bounds is an error).
\<close>

theorem clip_bounds_iff_past_warmup:
  assumes "reachable eigh self" and "0 \<le> self_start_clip self"
  shows "(self_clip self = None \<longleftrightarrow> self_n self \<le> self_start_clip self) \<and>
         (self_n self \<le> self_start_clip self \<longrightarrow> clip_X self X = Inr X) \<and>
         (self_start_clip self < self_n self \<longrightarrow>
            (\<exists>lo hi. self_clip self = Some (lo, hi) \<and>
               clip_X self X =
                 (if list_all (\<lambda>r. length r = length lo \<and> length r = length hi) X
                  then Inr (map (np_clip lo hi) X) else Inl ValueError))) \<and>
         (self_n self = 0 \<longrightarrow> clip_X self X = Inr X)"
proof -
  have inv: "self_clip self = None \<longleftrightarrow> self_n self \<le> self_start_clip self"
    using reachable_clip_inv[OF assms(1)] assms(2) by blast
  show ?thesis
  proof (cases "self_clip self")
    case None
    with inv show ?thesis by (simp add: clip_X_def)
  next
    case (Some b)
    obtain lo hi where "b = (lo, hi)" by (cases b)
    with Some inv assms(2) show ?thesis by (simp add: clip_X_def)
  qed
qed

theorem clip_bounds_iff_past_warmup_witness:
  "reachable eigh1 st3 \<and> 0 \<le> self_start_clip st3 \<and> self_clip st3 \<noteq> None \<and>
   self_start_clip st3 < self_n st3 \<and>
   clip_X st3 [[100], [0], [- 7]] = Inr [[4], [0], [- 2]]"
proof -
  have "0 \<le> self_start_clip st3" by (simp add: st3_def)
  from clip_bounds_iff_past_warmup[OF reachable_st3 this, of "[[100], [0], [- 7]]"]
  have "clip_X st3 [[100], [0], [- 7]] = Inr [[4], [0], [- 2]]"
    by (simp add: st3_def np_clip_def)
  moreover have "0 \<le> self_start_clip st3 \<and> self_clip st3 \<noteq> None \<and>
      self_start_clip st3 < self_n st3"
    by (simp add: st3_def)
  ultimately show ?thesis using reachable_st3 by blast
qed

subsection \<open>Labels\<close>

text \<open>
  Claim C6: in every call that returns, there is one score and one label per row of the
  batch, and the label of a row is \<open>1\<close> (outlier) iff its score is strictly greater than
  the threshold; a score equal to the threshold gives the label \<open>0\<close>.
\<close>

theorem label_iff_score_above_threshold:
  assumes "get_preds eigh self X = (Inr preds, self')"
  shows "\<exists>sc. self_score self' = Some sc \<and> self_prediction self' = Some preds \<and>
           length sc = length X \<and> length preds = length X \<and>
           (\<forall>i<length X. preds ! i = (if sc ! i > self_threshold self then 1 else 0))"
proof -
  from get_preds_Inr[OF assms] obtain L where
    L: "get_locals eigh self X = Inr L" "preds = l_prediction L"
       "self' = commit self (length X) L"
    by blast
  have len: "length (l_score L) = length X" by (rule locals_score_length[OF L(1)])
  have pr: "l_prediction L = map (\<lambda>s. if s > self_threshold self then 1 else 0) (l_score L)"
    by (rule locals_prediction[OF L(1)])
  show ?thesis
    using len pr L(2,3) by (intro exI[of _ "l_score L"]) (simp add: commit_def Let_def)
qed

theorem label_iff_score_above_threshold_witness:
  "get_preds eigh1 (init (75 / 14) 1 3 50 (- 1)) [[0], [2], [1], [5], [7]]
     = (Inr [0, 0, 0, 1, 0], st5) \<and>
   self_threshold (init (75 / 14) 1 3 50 (- 1)) = 75 / 14 \<and>
   self_score st5 = Some [0, 0, 0, 16, 75 / 14] \<and>
   self_prediction st5 = Some [0, 0, 0, 1, 0]"
  using label_iff_score_above_threshold[OF five_rows] five_rows
  by (simp add: st5_def init_def)

subsection \<open>The effective sample size\<close>

lemma get_locals_count_cap:
  assumes "(self_start_clip self < m) = (self_start_clip self < self_n self)"
    and "effective_n (self\<lparr>self_n := m, self_max_n := c\<rparr>) = effective_n self"
  shows "get_locals eigh (self\<lparr>self_n := m, self_max_n := c\<rparr>) X = get_locals eigh self X"
proof -
  let ?o = "self\<lparr>self_n := m, self_max_n := c\<rparr>"
  have c: "clip_X ?o X = clip_X self X" using assms(1) by (simp add: clip_X_def)
  have s: "\<And>p. shape_ok ?o p X = shape_ok self p X" by (simp add: shape_ok_def)
  have m: "\<And>p Xc. moments ?o p Xc = moments self p Xc"
    using assms(2) by (simp add: moments_def)
  have sc: "\<And>n Xc nm nmo covb invs V px pxc pm pc.
      scoring ?o n Xc nm nmo covb invs V px pxc pm pc
        = scoring self n Xc nm nmo covb invs V px pxc pm pc"
    by (simp add: scoring_def)
  have p: "\<And>n k Xc nm nmo covb V.
      projection ?o n k X Xc nm nmo covb V = projection self n k X Xc nm nmo covb V"
    unfolding projection_def sc by simp
  have k: "self_n_components ?o = self_n_components self" by simp
  show ?thesis
    unfolding get_locals_def c s m p assms(2) k by (rule refl)
qed

text \<open>
  Claim C7: the local \<open>n\<close> of a call is \<open>min(self.n, max_n)\<close> when \<open>max_n > 0\<close> and
  \<open>self.n\<close> otherwise, and it is the only way the count and the cap enter the means, the
  covariance, the inverses and the scores: a detector that differs in count and cap but has
  the same effective \<open>n\<close> (and the same clipping test) computes the same locals.
\<close>

theorem effective_n_in_every_formula:
  "effective_n self =
     (if 0 < self_max_n self then min (self_n self) (self_max_n self) else self_n self) \<and>
   (get_locals eigh self X = Inr L \<longrightarrow> l_n L = effective_n self) \<and>
   ((self_start_clip self < m) = (self_start_clip self < self_n self) \<and>
    effective_n (self\<lparr>self_n := m, self_max_n := c\<rparr>) = effective_n self \<longrightarrow>
    get_locals eigh (self\<lparr>self_n := m, self_max_n := c\<rparr>) X = get_locals eigh self X)"
  using locals_n[of eigh self X L] get_locals_count_cap[of self m c eigh X]
  by (simp add: effective_n_def)

theorem effective_n_in_every_formula_witness:
  "effective_n st6 = 2 \<and> get_locals eigh1 st6 [[6], [0]] = Inr L6 \<and> l_n L6 = 2 \<and>
   get_locals eigh1 (st6\<lparr>self_n := 2, self_max_n := - 1\<rparr>) [[6], [0]] = Inr L6"
  using effective_n_in_every_formula[of st6 eigh1 "[[6], [0]]" L6 2 "- 1"] capped_call
  by (simp add: st6_def effective_n_def)

subsection \<open>Construction\<close>

text \<open>
  Claim C8, as stated (construction raises on invalid hyperparameters), fails: with zero
  components, a negative multiplier, a negative \<open>start_clip\<close> and a cap of zero the
  constructor returns a detector.
\<close>

theorem configure_accepts_invalid:
  "configure 25 0 (- 3) (- 1) 0 =
     Inr \<lparr> self_threshold = 25, self_n_components = 0, self_max_n = 0,
           self_n_stdev = - 3, self_start_clip = - 1,
           self_clip = None, self_mean = None, self_C = None, self_n = 0,
           self_score = None, self_prediction = None \<rparr>"
  by (simp add: configure_def init_def)

text \<open>
  Claim C8, amended: construction validates nothing and never raises; for all arguments it
  returns the detector holding them, with no clip bounds, mean and covariance the integer
  \<open>0\<close>, and the count \<open>0\<close>.
\<close>

theorem configure_never_raises:
  "configure threshold n_components n_stdev start_clip max_n =
     Inr \<lparr> self_threshold = threshold, self_n_components = n_components, self_max_n = max_n,
           self_n_stdev = n_stdev, self_start_clip = start_clip,
           self_clip = None, self_mean = None, self_C = None, self_n = 0,
           self_score = None, self_prediction = None \<rparr>"
  by (simp add: configure_def init_def)

subsection \<open>Failed calls\<close>

text \<open>
  Claim C9: a call that raises, in particular one in which the eigendecomposition fails,
  leaves every attribute of the detector as it was: the attributes are assigned only after
  the last step that can raise.
\<close>

theorem failed_call_keeps_state:
  "fst (get_preds eigh self X) = Inl e \<Longrightarrow> snd (get_preds eigh self X) = self"
  by (auto simp: get_preds_def split: sum.splits)

theorem failed_call_keeps_state_witness:
  "fst (get_preds (eigh_fails_on [[2 / 3]]) st2 [[1]]) = Inl LinAlgError \<and>
   snd (get_preds (eigh_fails_on [[2 / 3]]) st2 [[1]]) = st2"
  using failed_call_keeps_state[of "eigh_fails_on [[2 / 3]]" st2 "[[1]]" LinAlgError]
  by (simp add: failing_call)

subsection \<open>Square matrices\<close>

lemma is_mat_rowlen: "is_mat m k M \<Longrightarrow> i < m \<Longrightarrow> length (M ! i) = k"
  by (simp add: is_mat_def list_all_length)

lemma is_mat_length: "is_mat m k M \<Longrightarrow> length M = m"
  by (simp add: is_mat_def)

lemma is_matI: "length M = m \<Longrightarrow> (\<And>i. i < m \<Longrightarrow> length (M ! i) = k) \<Longrightarrow> is_mat m k M"
  by (simp add: is_mat_def list_all_length)

lemma mat_eqI:
  assumes "is_mat m k A" "is_mat m k B"
    and "\<And>i j. i < m \<Longrightarrow> j < k \<Longrightarrow> A ! i ! j = B ! i ! j"
  shows "A = B"
proof (rule nth_equalityI)
  show "length A = length B" using assms(1,2) by (simp add: is_mat_def)
next
  fix i assume "i < length A"
  then have i: "i < m" using assms(1) by (simp add: is_mat_def)
  show "A ! i = B ! i"
  proof (rule nth_equalityI)
    show "length (A ! i) = length (B ! i)"
      using is_mat_rowlen[OF assms(1) i] is_mat_rowlen[OF assms(2) i] by simp
  next
    fix j assume "j < length (A ! i)"
    then have "j < k" using is_mat_rowlen[OF assms(1) i] by simp
    then show "A ! i ! j = B ! i ! j" using assms(3) i by simp
  qed
qed

lemma dot_sum: "length u = k \<Longrightarrow> length v = k \<Longrightarrow> dot u v = (\<Sum>t<k. u ! t * v ! t)"
  by (simp add: dot_def sum_list_sum_nth atLeast0LessThan)

lemma ncols_sq: "is_mat k k B \<Longrightarrow> ncols B = k"
  by (cases B) (auto simp: ncols_def is_mat_def)

lemma col_nth: "t < length M \<Longrightarrow> col M j ! t = M ! t ! j"
  by (simp add: col_def)

lemma matmul_nth:
  assumes "is_mat k k A" "is_mat k k B" "i < k" "j < k"
  shows "matmul A B ! i ! j = (\<Sum>t<k. A ! i ! t * B ! t ! j)"
proof -
  have "matmul A B ! i ! j = dot (A ! i) (col B j)"
    using assms by (simp add: matmul_def ncols_sq is_mat_length)
  also have "\<dots> = (\<Sum>t<k. A ! i ! t * col B j ! t)"
    by (rule dot_sum) (use assms in \<open>simp_all add: is_mat_rowlen col_def is_mat_length\<close>)
  also have "\<dots> = (\<Sum>t<k. A ! i ! t * B ! t ! j)"
    by (rule sum.cong) (use assms in \<open>simp_all add: col_nth is_mat_length\<close>)
  finally show ?thesis .
qed

lemma matmul_sq: "is_mat k k A \<Longrightarrow> is_mat k k B \<Longrightarrow> is_mat k k (matmul A B)"
  by (rule is_matI) (simp_all add: matmul_def ncols_sq is_mat_length)

lemma madd_sq: "is_mat m k A \<Longrightarrow> is_mat m k B \<Longrightarrow> is_mat m k (madd A B)"
  by (rule is_matI) (simp_all add: madd_def vadd_def is_mat_length is_mat_rowlen)

lemma msub_sq: "is_mat m k A \<Longrightarrow> is_mat m k B \<Longrightarrow> is_mat m k (msub A B)"
  by (rule is_matI) (simp_all add: msub_def vsub_def is_mat_length is_mat_rowlen)

lemma mscale_sq: "is_mat m k A \<Longrightarrow> is_mat m k (mscale c A)"
  by (rule is_matI) (simp_all add: mscale_def vscale_def is_mat_length is_mat_rowlen)

lemma identity_sq: "is_mat k k (identity k)"
  by (rule is_matI) (simp_all add: identity_def)

lemma zeros_sq: "is_mat m k (zeros m k)"
  by (rule is_matI) (simp_all add: zeros_def)

lemma outer_sq: "length u = m \<Longrightarrow> length v = k \<Longrightarrow> is_mat m k (outer u v)"
  by (rule is_matI) (simp_all add: outer_def)

lemma madd_nth: "is_mat m k A \<Longrightarrow> is_mat m k B \<Longrightarrow> i < m \<Longrightarrow> j < k \<Longrightarrow>
    madd A B ! i ! j = A ! i ! j + B ! i ! j"
  by (simp add: madd_def vadd_def is_mat_length is_mat_rowlen)

lemma msub_nth: "is_mat m k A \<Longrightarrow> is_mat m k B \<Longrightarrow> i < m \<Longrightarrow> j < k \<Longrightarrow>
    msub A B ! i ! j = A ! i ! j - B ! i ! j"
  by (simp add: msub_def vsub_def is_mat_length is_mat_rowlen)

lemma mscale_nth: "is_mat m k A \<Longrightarrow> i < m \<Longrightarrow> j < k \<Longrightarrow> mscale c A ! i ! j = c * A ! i ! j"
  by (simp add: mscale_def vscale_def is_mat_length is_mat_rowlen)

lemma identity_nth: "i < k \<Longrightarrow> j < k \<Longrightarrow> identity k ! i ! j = (if i = j then 1 else 0)"
  by (simp add: identity_def)

lemma zeros_nth: "i < m \<Longrightarrow> j < k \<Longrightarrow> zeros m k ! i ! j = 0"
  by (simp add: zeros_def)

lemma outer_nth: "i < length u \<Longrightarrow> j < length v \<Longrightarrow> outer u v ! i ! j = u ! i * v ! j"
  by (simp add: outer_def)

lemma trace_sum: "is_mat k k M \<Longrightarrow> trace M = (\<Sum>t<k. M ! t ! t)"
  by (simp add: trace_def diag_def sum_list_sum_nth atLeast0LessThan is_mat_length)

lemmas mat_sq = matmul_sq madd_sq msub_sq mscale_sq identity_sq zeros_sq
lemmas mat_nth = matmul_nth madd_nth msub_nth mscale_nth identity_nth zeros_nth

lemma matmul_assoc:
  assumes "is_mat k k A" "is_mat k k B" "is_mat k k C"
  shows "matmul (matmul A B) C = matmul A (matmul B C)"
proof (rule mat_eqI[of k k])
  fix i j assume ij: "i < k" "j < k"
  have "matmul (matmul A B) C ! i ! j = (\<Sum>t<k. (\<Sum>u<k. A ! i ! u * B ! u ! t) * C ! t ! j)"
    using assms ij by (simp add: matmul_nth[where k=k] madd_nth[where m=k and k=k] msub_nth[where m=k and k=k] mscale_nth[where m=k and k=k] identity_nth zeros_nth mat_sq cong: sum.cong_simp)
  also have "\<dots> = (\<Sum>t<k. \<Sum>u<k. A ! i ! u * B ! u ! t * C ! t ! j)"
    by (simp add: sum_distrib_right)
  also have "\<dots> = (\<Sum>u<k. \<Sum>t<k. A ! i ! u * B ! u ! t * C ! t ! j)"
    by (rule sum.swap)
  also have "\<dots> = (\<Sum>u<k. A ! i ! u * (\<Sum>t<k. B ! u ! t * C ! t ! j))"
    by (simp add: sum_distrib_left mult.assoc)
  also have "\<dots> = matmul A (matmul B C) ! i ! j"
    using assms ij by (simp add: matmul_nth[where k=k] madd_nth[where m=k and k=k] msub_nth[where m=k and k=k] mscale_nth[where m=k and k=k] identity_nth zeros_nth mat_sq cong: sum.cong_simp)
  finally show "matmul (matmul A B) C ! i ! j = matmul A (matmul B C) ! i ! j" .
qed (use assms in \<open>simp_all add: mat_sq\<close>)

lemma matmul_madd_right:
  assumes "is_mat k k A" "is_mat k k B" "is_mat k k C"
  shows "matmul A (madd B C) = madd (matmul A B) (matmul A C)"
  by (rule mat_eqI[of k k]) (use assms in \<open>simp_all add: matmul_nth[where k=k] madd_nth[where m=k and k=k] msub_nth[where m=k and k=k] mscale_nth[where m=k and k=k] identity_nth zeros_nth mat_sq distrib_left sum.distrib cong: sum.cong_simp\<close>)

lemma matmul_madd_left:
  assumes "is_mat k k A" "is_mat k k B" "is_mat k k C"
  shows "matmul (madd A B) C = madd (matmul A C) (matmul B C)"
  by (rule mat_eqI[of k k]) (use assms in \<open>simp_all add: matmul_nth[where k=k] madd_nth[where m=k and k=k] msub_nth[where m=k and k=k] mscale_nth[where m=k and k=k] identity_nth zeros_nth mat_sq distrib_right sum.distrib cong: sum.cong_simp\<close>)

lemma matmul_msub_right:
  assumes "is_mat k k A" "is_mat k k B" "is_mat k k C"
  shows "matmul A (msub B C) = msub (matmul A B) (matmul A C)"
  by (rule mat_eqI[of k k])
     (use assms in \<open>simp_all add: matmul_nth[where k=k] madd_nth[where m=k and k=k] msub_nth[where m=k and k=k] mscale_nth[where m=k and k=k] identity_nth zeros_nth mat_sq right_diff_distrib sum_subtractf cong: sum.cong_simp\<close>)

lemma matmul_mscale_right:
  assumes "is_mat k k A" "is_mat k k B"
  shows "matmul A (mscale c B) = mscale c (matmul A B)"
  by (rule mat_eqI[of k k])
     (use assms in \<open>simp_all add: matmul_nth[where k=k] madd_nth[where m=k and k=k] msub_nth[where m=k and k=k] mscale_nth[where m=k and k=k] identity_nth zeros_nth mat_sq sum_distrib_left mult.left_commute cong: sum.cong_simp\<close>)

lemma matmul_mscale_left:
  assumes "is_mat k k A" "is_mat k k B"
  shows "matmul (mscale c A) B = mscale c (matmul A B)"
  by (rule mat_eqI[of k k])
     (use assms in \<open>simp_all add: matmul_nth[where k=k] madd_nth[where m=k and k=k] msub_nth[where m=k and k=k] mscale_nth[where m=k and k=k] identity_nth zeros_nth mat_sq sum_distrib_left mult.assoc cong: sum.cong_simp\<close>)

lemma matmul_identity_right:
  assumes "is_mat k k A"
  shows "matmul A (identity k) = A"
proof (rule mat_eqI[of k k])
  fix i j assume ij: "i < k" "j < k"
  have "matmul A (identity k) ! i ! j = (\<Sum>t<k. A ! i ! t * (if t = j then 1 else 0))"
    using assms ij by (simp add: matmul_nth[where k=k] madd_nth[where m=k and k=k] msub_nth[where m=k and k=k] mscale_nth[where m=k and k=k] identity_nth zeros_nth mat_sq cong: sum.cong_simp)
  also have "\<dots> = (\<Sum>t<k. if t = j then A ! i ! j else 0)"
    by (rule sum.cong) auto
  also have "\<dots> = A ! i ! j" using ij by simp
  finally show "matmul A (identity k) ! i ! j = A ! i ! j" .
qed (use assms in \<open>simp_all add: mat_sq\<close>)

lemma matmul_identity_left:
  assumes "is_mat k k A"
  shows "matmul (identity k) A = A"
proof (rule mat_eqI[of k k])
  fix i j assume ij: "i < k" "j < k"
  have "matmul (identity k) A ! i ! j = (\<Sum>t<k. (if i = t then 1 else 0) * A ! t ! j)"
    using assms ij by (simp add: matmul_nth[where k=k] madd_nth[where m=k and k=k] msub_nth[where m=k and k=k] mscale_nth[where m=k and k=k] identity_nth zeros_nth mat_sq cong: sum.cong_simp)
  also have "\<dots> = (\<Sum>t<k. if t = i then A ! i ! j else 0)"
    by (rule sum.cong) auto
  also have "\<dots> = A ! i ! j" using ij by simp
  finally show "matmul (identity k) A ! i ! j = A ! i ! j" .
qed (use assms in \<open>simp_all add: mat_sq\<close>)

lemma matmul_zeros_right:
  assumes "is_mat k k A"
  shows "matmul A (zeros k k) = zeros k k"
  by (rule mat_eqI[of k k]) (use assms in \<open>simp_all add: matmul_nth[where k=k] madd_nth[where m=k and k=k] msub_nth[where m=k and k=k] mscale_nth[where m=k and k=k] identity_nth zeros_nth mat_sq cong: sum.cong_simp\<close>)

subsection \<open>The rank-one update of an inverse\<close>

lemma is_inverseD:
  assumes "is_inverse k A Y"
  shows "is_mat k k Y" "matmul A Y = identity k" "matmul Y A = identity k"
  using assms by (simp_all add: is_inverse_def)

lemma mscale_zero: "is_mat k k W \<Longrightarrow> mscale 0 W = zeros k k"
  by (rule mat_eqI[of k k]) (simp_all add: mscale_nth[where m=k and k=k] zeros_nth mat_sq)

lemma trace_zeros: "trace (zeros k k) = 0"
  by (simp add: trace_sum[OF zeros_sq] zeros_nth)

lemma rank_one_square:
  assumes Y: "is_mat k k Y" and d: "length d = k"
  shows "matmul (matmul (mscale c (outer d d)) Y) (matmul (mscale c (outer d d)) Y)
           = mscale (trace (matmul (mscale c (outer d d)) Y)) (matmul (mscale c (outer d d)) Y)"
proof -
  define B where "B = mscale c (outer d d)"
  define W where "W = matmul B Y"
  define w where "w j = (\<Sum>t<k. d ! t * Y ! t ! j)" for j
  have B: "is_mat k k B" unfolding B_def using d by (intro mscale_sq outer_sq)
  have W: "is_mat k k W" unfolding W_def using B Y by (rule matmul_sq)
  have Bij: "B ! i ! j = c * (d ! i * d ! j)" if "i < k" "j < k" for i j
    unfolding B_def using that d
    by (simp add: mscale_nth[where m=k and k=k] outer_sq outer_nth)
  have Wij: "W ! i ! j = c * d ! i * w j" if "i < k" "j < k" for i j
    unfolding W_def w_def using that B Y
    by (simp add: matmul_nth[where k=k] Bij sum_distrib_left mult.assoc cong: sum.cong_simp)
  have tr: "trace W = (\<Sum>u<k. c * d ! u * w u)"
    by (simp add: trace_sum[OF W] Wij cong: sum.cong_simp)
  have "matmul W W = mscale (trace W) W"
  proof (rule mat_eqI[of k k])
    fix i j assume ij: "i < k" "j < k"
    have "matmul W W ! i ! j = (\<Sum>u<k. (c * d ! i * w u) * (c * d ! u * w j))"
      using ij W by (simp add: matmul_nth[where k=k] Wij cong: sum.cong_simp)
    also have "\<dots> = (\<Sum>u<k. (c * d ! u * w u) * (c * d ! i * w j))"
      by (rule sum.cong) (simp_all add: mult_ac)
    also have "\<dots> = trace W * W ! i ! j"
      using ij by (simp add: tr Wij sum_distrib_right)
    also have "\<dots> = mscale (trace W) W ! i ! j"
      using ij W by (simp add: mscale_nth[where m=k and k=k])
    finally show "matmul W W ! i ! j = mscale (trace W) W ! i ! j" .
  qed (use W in \<open>simp_all add: mat_sq\<close>)
  then show ?thesis unfolding W_def B_def .
qed

lemma is_inverse_mscale:
  assumes A: "is_mat k k A" and inv: "is_inverse k A Y" and a: "a \<noteq> 0"
  shows "is_inverse k (mscale a A) (mscale (1 / a) Y)"
proof -
  note Y = is_inverseD[OF inv]
  have I: "mscale a (mscale (1 / a) (identity k)) = identity k"
    by (rule mat_eqI[of k k])
       (use a in \<open>simp_all add: mscale_nth[where m=k and k=k] mat_sq\<close>)
  have I': "mscale (1 / a) (mscale a (identity k)) = identity k"
    by (rule mat_eqI[of k k])
       (use a in \<open>simp_all add: mscale_nth[where m=k and k=k] mat_sq\<close>)
  have 1: "matmul (mscale a A) (mscale (1 / a) Y) = identity k"
    using A Y(1) Y(2) I I'
    by (simp add: matmul_mscale_left[where k=k] matmul_mscale_right[where k=k] mat_sq)
  have 2: "matmul (mscale (1 / a) Y) (mscale a A) = identity k"
    using A Y(1) Y(3) I I'
    by (simp add: matmul_mscale_left[where k=k] matmul_mscale_right[where k=k] mat_sq)
  show ?thesis unfolding is_inverse_def using 1 2 Y(1) by (simp add: mat_sq)
qed

subsection \<open>The loop of the inverses\<close>

lemma rank_one_sq: "rank_one k M \<Longrightarrow> is_mat k k M"
  by (auto simp: rank_one_def intro!: mscale_sq outer_sq)

lemma cons_row_Inr:
  "cons_row M r = Inr invs \<Longrightarrow> \<exists>invs'. r = Inr invs' \<and> invs = M # invs'"
  by (cases r) (auto simp: cons_row_def)

lemma inv_loop_length: "inv_loop n B i c P m = Inr invs \<Longrightarrow> length invs = m"
proof (induction m arbitrary: i c P invs)
  case 0
  then show ?case by simp
next
  case (Suc m)
  show ?case
  proof (cases c)
    case None
    with Suc.prems show ?thesis
      by (auto simp: Let_def split: if_splits dest!: cons_row_Inr dest: Suc.IH)
  next
    case (Some prev)
    with Suc.prems show ?thesis
      by (auto simp: Let_def split: if_splits dest!: cons_row_Inr dest: Suc.IH)
  qed
qed

lemma inv_loop_None_step:
  assumes "inv_loop n B i None P (Suc m) = Inr invs" "\<bar>det P\<bar> \<le> EPSILON"
  shows "\<exists>invs'. invs = zeros_like (B ! i) # invs' \<and>
           inv_loop n B (Suc i) None (cov_step n B i P) m = Inr invs'"
  using assms by (auto simp: cov_step_def split: if_splits dest!: cons_row_Inr)

lemma inv_loop_None_seed:
  assumes "inv_loop n B i None P (Suc m) = Inr invs" "\<bar>det P\<bar> > EPSILON"
  shows "\<exists>invs'. invs = mat_inv P # invs' \<and>
           inv_loop n B (Suc i) (Some (mat_inv P)) P m = Inr invs'"
  using assms by (auto split: if_splits dest!: cons_row_Inr)

lemma inv_loop_prefix:
  assumes "inv_loop n B i None P m = Inr invs" "t \<le> m"
    and "\<forall>j<t. \<bar>det (running_cov n B i P j)\<bar> \<le> EPSILON"
  shows "(\<forall>j<t. invs ! j = zeros_like (B ! (i + j))) \<and>
         inv_loop n B (i + t) None (running_cov n B i P t) (m - t) = Inr (drop t invs)"
  using assms
proof (induction t arbitrary: i P m invs)
  case 0
  then show ?case by simp
next
  case (Suc t)
  from Suc.prems(2) obtain m' where m: "m = Suc m'" by (cases m) auto
  have d0: "\<bar>det P\<bar> \<le> EPSILON" using Suc.prems(3) by force
  from inv_loop_None_step[OF Suc.prems(1)[unfolded m] d0] obtain invs' where
    i': "invs = zeros_like (B ! i) # invs'"
        "inv_loop n B (Suc i) None (cov_step n B i P) m' = Inr invs'" by blast
  have "\<forall>j<t. \<bar>det (running_cov n B (Suc i) (cov_step n B i P) j)\<bar> \<le> EPSILON"
    using Suc.prems(3) by force
  from Suc.IH[OF i'(2) _ this] Suc.prems(2) m
  have IH: "\<forall>j<t. invs' ! j = zeros_like (B ! (Suc i + j))"
    "inv_loop n B (Suc i + t) None (running_cov n B (Suc i) (cov_step n B i P) t) (m' - t)
       = Inr (drop t invs')" by auto
  show ?case
  proof (intro conjI allI impI)
    fix j assume "j < Suc t"
    then show "invs ! j = zeros_like (B ! (i + j))"
      using IH(1) i'(1) by (cases j) auto
  next
    show "inv_loop n B (i + Suc t) None (running_cov n B i P (Suc t)) (m - Suc t)
            = Inr (drop (Suc t) invs)"
      using IH(2) i'(1) m by simp
  qed
qed

lemma cov_step_sq:
  assumes "is_mat k k P" "i < length B" "\<forall>j<length B. rank_one k (B ! j)"
  shows "is_mat k k (cov_step n B i P)"
  using assms by (auto simp: cov_step_def intro: rank_one_sq intro!: madd_sq mscale_sq)

lemma running_cov_sq:
  assumes "is_mat k k P" "i + j \<le> length B" "\<forall>j<length B. rank_one k (B ! j)"
  shows "is_mat k k (running_cov n B i P j)"
  using assms
proof (induction j arbitrary: i P)
  case 0
  then show ?case by simp
next
  case (Suc j)
  have "is_mat k k (cov_step n B i P)"
    using Suc.prems by (intro cov_step_sq) auto
  from Suc.IH[OF this _ Suc.prems(3)] Suc.prems(2) show ?case by simp
qed

lemma running_cov_add:
  "running_cov n B i P (a + b) = running_cov n B (i + a) (running_cov n B i P a) b"
  by (induction a arbitrary: i P) simp_all

lemma matmul_row_length: "i < length A \<Longrightarrow> length (matmul A B ! i) = ncols B"
  by (simp add: matmul_def)

lemma ncols_eigvects:
  assumes "is_mat p k V" "p = 0 \<longrightarrow> k = 0"
  shows "ncols V = k"
  using assms by (cases V) (auto simp: ncols_def is_mat_def)

lemma ncols_matmul: "ncols (matmul A B) = (if A = [] then 0 else ncols B)"
  by (cases A) (simp_all add: ncols_def matmul_def)

lemma mtranspose_matmul_sq:
  assumes "is_mat p k V" "p = 0 \<longrightarrow> k = 0" "is_mat p p C"
  shows "is_mat k k (matmul (mtranspose V) (matmul C V))"
proof (rule is_matI)
  show "length (matmul (mtranspose V) (matmul C V)) = k"
    using assms by (simp add: mtranspose_def ncols_eigvects)
next
  fix i assume "i < k"
  then have "i < length (mtranspose V)" using assms by (simp add: mtranspose_def ncols_eigvects)
  then have "length (matmul (mtranspose V) (matmul C V) ! i) = ncols (matmul C V)"
    by (rule matmul_row_length)
  also have "\<dots> = k"
    using assms by (auto simp: ncols_matmul ncols_eigvects is_mat_def)
  finally show "length (matmul (mtranspose V) (matmul C V) ! i) = k" .
qed

lemma inv_B_rank_one:
  assumes "length pxc = length pm"
    and "\<forall>j<length pxc. length (pxc ! j) = k \<and> length (pm ! j) = k"
  shows "length (inv_B n pxc pm) = length pxc"
    and "\<forall>j<length (inv_B n pxc pm). rank_one k (inv_B n pxc pm ! j)"
proof -
  show "length (inv_B n pxc pm) = length pxc" by (simp add: inv_B_def)
  show "\<forall>j<length (inv_B n pxc pm). rank_one k (inv_B n pxc pm ! j)"
  proof (intro allI impI)
    fix j assume "j < length (inv_B n pxc pm)"
    then have j: "j < length pxc" by (simp add: inv_B_def)
    then have "length (vsub (pxc ! j) (pm ! j)) = k" using assms by (simp add: vsub_def)
    moreover have "inv_B n pxc pm ! j =
        mscale (1 / (real_of_int n + real j + 1))
          (outer (vsub (pxc ! j) (pm ! j)) (vsub (pxc ! j) (pm ! j)))"
      using j by (simp add: inv_B_def)
    ultimately show "rank_one k (inv_B n pxc pm ! j)" unfolding rank_one_def by blast
  qed
qed

lemma locals_loop:
  assumes "get_locals eigh self X = Inr L"
  shows "inv_loop (l_n L) (l_B L) 0 None (l_proj_cov L) (length (l_B L)) = Inr (l_all_C_inv L)"
    and "length (l_B L) = length X"
    and "\<forall>j<length (l_B L). rank_one (nat (n_comp self X)) (l_B L ! j)"
    and "is_mat (nat (n_comp self X)) (nat (n_comp self X)) (l_proj_cov L)"
    and "l_score L = map (\<lambda>i. quad (msub (l_proj_x L) (l_proj_means L) ! i) (l_all_C_inv L ! i))
                         [0..<length X]"
    and "self_C self = None \<longrightarrow> l_proj_cov L = zeros (nat (n_comp self X)) (nat (n_comp self X))"
    and "l_n L = effective_n self"
proof -
  define k where "k = nat (n_comp self X)"
  define p where "p = length (hd X)"
  have "\<exists>Xclip nm nmo covb V invs.
      clip_X self X = Inr Xclip \<and> X \<noteq> [] \<and> shape_ok self p X \<and>
      moments self p Xclip = (nm, nmo, covb) \<and> 0 \<le> n_comp self X \<and> is_mat p k V \<and>
      inv_loop (effective_n self) (inv_B (effective_n self) (matmul Xclip V) (matmul nmo V))
       0 None
       (case self_C self of None \<Rightarrow> zeros k k | Some C \<Rightarrow> matmul (mtranspose V) (matmul C V))
       (length (inv_B (effective_n self) (matmul Xclip V) (matmul nmo V))) = Inr invs \<and>
      L = scoring self (effective_n self) Xclip nm nmo covb invs V (matmul X V)
           (matmul Xclip V) (matmul nmo V)
           (case self_C self of None \<Rightarrow> zeros k k | Some C \<Rightarrow> matmul (mtranspose V) (matmul C V))"
    unfolding k_def p_def
    by (rule get_locals_InrE[OF assms], intro exI conjI; assumption)
  then obtain Xclip nm nmo covb V invs where
    c: "clip_X self X = Inr Xclip" and ne: "X \<noteq> []" and sh: "shape_ok self p X"
    and mo: "moments self p Xclip = (nm, nmo, covb)"
    and nc: "0 \<le> n_comp self X" and V: "is_mat p k V"
    and lp: "inv_loop (effective_n self) (inv_B (effective_n self) (matmul Xclip V) (matmul nmo V))
       0 None
       (case self_C self of None \<Rightarrow> zeros k k | Some C \<Rightarrow> matmul (mtranspose V) (matmul C V))
       (length (inv_B (effective_n self) (matmul Xclip V) (matmul nmo V))) = Inr invs"
    and L: "L = scoring self (effective_n self) Xclip nm nmo covb invs V (matmul X V)
           (matmul Xclip V) (matmul nmo V)
           (case self_C self of None \<Rightarrow> zeros k k | Some C \<Rightarrow> matmul (mtranspose V) (matmul C V))"
    by blast
  have f: "l_n L = effective_n self" "l_B L = inv_B (effective_n self) (matmul Xclip V) (matmul nmo V)"
    "l_all_C_inv L = invs" "l_proj_x L = matmul X V" "l_proj_means L = matmul nmo V"
    "l_proj_cov L = (case self_C self of None \<Rightarrow> zeros k k
                     | Some C \<Rightarrow> matmul (mtranspose V) (matmul C V))"
    "l_score L = map (\<lambda>i. quad (msub (matmul X V) (matmul nmo V) ! i) (invs ! i))
                    [0..<length (msub (matmul X V) (matmul nmo V))]"
    unfolding L by (simp_all add: scoring_def Let_def)
  have lenc: "length Xclip = length X" using c by (rule clip_X_length)
  then have "Xclip \<noteq> []" using ne by auto
  then have lenm: "length nmo = length X" using moments_lengths(2)[OF mo] lenc by simp
  have pk: "p = 0 \<longrightarrow> k = 0" using nc by (auto simp: k_def n_comp_def p_def)
  have ncV: "ncols V = k" using V pk by (rule ncols_eigvects)
  have rows: "\<forall>j<length (matmul Xclip V).
      length (matmul Xclip V ! j) = k \<and> length (matmul nmo V ! j) = k"
    using lenc lenm by (simp add: matmul_row_length ncV)
  have len2: "length (matmul Xclip V) = length (matmul nmo V)" using lenc lenm by simp
  show "inv_loop (l_n L) (l_B L) 0 None (l_proj_cov L) (length (l_B L)) = Inr (l_all_C_inv L)"
    using lp by (simp add: f)
  show "length (l_B L) = length X"
    using inv_B_rank_one(1)[OF len2 rows] lenc by (simp add: f)
  show "\<forall>j<length (l_B L). rank_one (nat (n_comp self X)) (l_B L ! j)"
    using inv_B_rank_one(2)[OF len2 rows] by (simp add: f k_def)
  show "is_mat (nat (n_comp self X)) (nat (n_comp self X)) (l_proj_cov L)"
  proof (cases "self_C self")
    case None
    then show ?thesis by (simp add: f zeros_sq k_def)
  next
    case (Some C)
    then have "is_mat p p C" using sh by (simp add: shape_ok_def)
    from mtranspose_matmul_sq[OF V pk this] Some show ?thesis by (simp add: f k_def)
  qed
  show "l_score L = map (\<lambda>i. quad (msub (l_proj_x L) (l_proj_means L) ! i) (l_all_C_inv L ! i))
                         [0..<length X]"
    using lenm by (simp add: f msub_def)
  show "self_C self = None \<longrightarrow> l_proj_cov L = zeros (nat (n_comp self X)) (nat (n_comp self X))"
    by (simp add: f k_def)
  show "l_n L = effective_n self" by (rule f)
qed

lemma zeros_like_sq: "is_mat m k M \<Longrightarrow> zeros_like M = zeros m k"
proof -
  assume M: "is_mat m k M"
  have "zeros_like M = map (\<lambda>r. replicate k 0) M"
    unfolding zeros_like_def
    by (rule map_cong) (use M in \<open>auto simp: is_mat_def list_all_iff map_replicate_const\<close>)
  also have "\<dots> = zeros m k"
    using M by (simp add: zeros_def map_replicate_const is_mat_def)
  finally show ?thesis .
qed

lemma dot_zero_left: "dot (replicate k 0) d = 0"
proof -
  have "map2 (*) (replicate k (0::real)) d = replicate (min k (length d)) 0"
    by (rule nth_equalityI) simp_all
  then show ?thesis by (simp add: dot_def sum_list_replicate)
qed

lemma quad_zeros: "quad d (zeros m k) = 0"
proof -
  have "map (\<lambda>r. dot r d) (zeros m k) = replicate m 0"
    by (simp add: zeros_def dot_zero_left)
  moreover have "dot d (replicate m 0) = 0"
  proof -
    have "map2 (*) d (replicate m (0::real)) = replicate (min (length d) m) 0"
      by (rule nth_equalityI) simp_all
    then show ?thesis by (simp add: dot_def sum_list_replicate)
  qed
  ultimately show ?thesis by (simp add: quad_def)
qed

text \<open>
  Claim C10: a row processed while no inverse has been produced yet (the determinant of
  the running projected covariance did not exceed \<open>1e-8\<close> at any row up to it) keeps the
  zero matrix as its stored inverse, so its score is \<open>0\<close> and, for a threshold that is
  not negative, its label is \<open>0\<close>. The call \<open>_get_preds\<close> then returns: it returns one
  label per row, the label of that row being \<open>0\<close>, and it leaves in \<open>self.prediction\<close> the
  labels it returned and in \<open>self.score\<close> one score per row, the score of that row
  being \<open>0\<close>.
\<close>

theorem unseeded_row_scores_zero:
  assumes "get_locals eigh self X = Inr L" and "i < length X"
    and "\<forall>j\<le>i. \<bar>det (running_cov (l_n L) (l_B L) 0 (l_proj_cov L) j)\<bar> \<le> EPSILON"
  shows "l_all_C_inv L ! i = zeros (nat (n_comp self X)) (nat (n_comp self X)) \<and>
         l_score L ! i = 0 \<and>
         (0 \<le> self_threshold self \<longrightarrow> l_prediction L ! i = 0) \<and>
         (\<exists>preds self'. get_preds eigh self X = (Inr preds, self') \<and>
            length preds = length X \<and>
            (0 \<le> self_threshold self \<longrightarrow> preds ! i = 0) \<and>
            self_prediction self' = Some preds \<and>
            (\<exists>score. self_score self' = Some score \<and> length score = length X \<and>
               score ! i = 0))"
proof -
  note ll = locals_loop[OF assms(1)]
  have "\<forall>j<Suc i. \<bar>det (running_cov (l_n L) (l_B L) 0 (l_proj_cov L) j)\<bar> \<le> EPSILON"
    using assms(3) by auto
  from inv_loop_prefix[OF ll(1) _ this] assms(2) ll(2)
  have "l_all_C_inv L ! i = zeros_like (l_B L ! i)" by auto
  moreover have "is_mat (nat (n_comp self X)) (nat (n_comp self X)) (l_B L ! i)"
    using ll(3) ll(2) assms(2) by (auto intro: rank_one_sq)
  ultimately have z: "l_all_C_inv L ! i = zeros (nat (n_comp self X)) (nat (n_comp self X))"
    by (simp add: zeros_like_sq)
  have s: "l_score L ! i = 0"
    using assms(2) by (simp add: ll(5) z quad_zeros)
  have len: "length (l_score L) = length X" by (simp add: ll(5))
  then have p: "l_prediction L ! i = (if l_score L ! i > self_threshold self then 1 else 0)"
    using assms(2) by (simp add: locals_prediction[OF assms(1)])
  have lenp: "length (l_prediction L) = length X"
    using len by (simp add: locals_prediction[OF assms(1)])
  have g: "get_preds eigh self X = (Inr (l_prediction L), commit self (length X) L)"
    using assms(1) by (simp add: get_preds_def)
  have c: "self_prediction (commit self (length X) L) = Some (l_prediction L)"
    "self_score (commit self (length X) L) = Some (l_score L)"
    by (simp_all add: commit_def Let_def)
  have "\<exists>preds self'. get_preds eigh self X = (Inr preds, self') \<and>
            length preds = length X \<and>
            (0 \<le> self_threshold self \<longrightarrow> preds ! i = 0) \<and>
            self_prediction self' = Some preds \<and>
            (\<exists>score. self_score self' = Some score \<and> length score = length X \<and>
               score ! i = 0)"
    using g c len lenp s p by simp
  with z s p show ?thesis by simp
qed

lemma get_locals_nonempty: "get_locals eigh self X = Inr L \<Longrightarrow> X \<noteq> []"
  by (erule get_locals_InrE)

lemma reachable_count:
  assumes "reachable eigh self"
  shows "0 \<le> self_n self \<and> (self_n self = 0 \<longrightarrow> self_C self = None)"
  using assms
proof (induction rule: reachable.induct)
  case (reachable_init threshold n_components n_stdev start_clip max_n)
  show ?case by (simp add: init_def)
next
  case (reachable_call self X)
  show ?case
  proof (rule get_preds_cases[of eigh self X])
    fix e assume "get_preds eigh self X = (Inl e, self)"
    with reachable_call.IH show ?thesis by simp
  next
    fix L assume l: "get_locals eigh self X = Inr L"
      and g: "get_preds eigh self X = (Inr (l_prediction L), commit self (length X) L)"
    have "0 < int (length X)" using get_locals_nonempty[OF l] by simp
    then show ?thesis using reachable_call.IH unfolding g
      by (auto simp: commit_fields simp del: of_nat_0_less_iff length_greater_0_conv)
  qed
qed

lemma det_zeros: "0 < k \<Longrightarrow> det (zeros k k) = 0"
proof -
  assume "0 < k"
  then obtain k' where k: "k = Suc k'" by (cases k) auto
  define r where "r = replicate k (0::real)"
  define rs where "rs = replicate k' r"
  have z: "zeros k k = r # rs" by (simp add: zeros_def k r_def rs_def)
  have "map (\<lambda>j. (- 1) ^ j * (r ! j) * det (del_col j rs)) [0..<length r]
          = map (\<lambda>j. 0) [0..<length r]"
    by (rule map_cong) (simp_all add: r_def)
  then have "det (r # rs) = 0" by (simp only: det.simps sum_list_0)
  then show ?thesis by (simp only: z)
qed

lemma mat_inv_sq: "length M = k \<Longrightarrow> is_mat k k (mat_inv M)"
  by (rule is_matI) (simp_all add: mat_inv_def)

lemma inv_loop_sq:
  assumes "inv_loop n B i c P m = Inr invs"
    and "i + m \<le> length B" "\<forall>j<length B. rank_one k (B ! j)"
    and "is_mat k k P" "case c of None \<Rightarrow> True | Some prev \<Rightarrow> is_mat k k prev \<and> 0 < i"
    and "t < m"
  shows "is_mat k k (invs ! t)"
  using assms
proof (induction m arbitrary: i c P invs t)
  case 0
  then show ?case by simp
next
  case (Suc m)
  have Bi: "is_mat k k (B ! i)" using Suc.prems(2,3) by (auto intro: rank_one_sq)
  show ?case
  proof (cases c)
    case None
    show ?thesis
    proof (cases "\<bar>det P\<bar> > EPSILON")
      case True
      from inv_loop_None_seed[OF Suc.prems(1)[unfolded None] True] obtain invs' where
        i': "invs = mat_inv P # invs'"
            "inv_loop n B (Suc i) (Some (mat_inv P)) P m = Inr invs'" by blast
      have sq: "is_mat k k (mat_inv P)" using Suc.prems(4) by (intro mat_inv_sq) (simp add: is_mat_def)
      show ?thesis
      proof (cases t)
        case 0
        then show ?thesis using i'(1) sq by simp
      next
        case (Suc t')
        from Suc.IH[OF i'(2) _ Suc.prems(3) Suc.prems(4), of t'] Suc.prems(2,6) sq Suc
        show ?thesis using i'(1) by simp
      qed
    next
      case False
      then have "\<bar>det P\<bar> \<le> EPSILON" by simp
      from inv_loop_None_step[OF Suc.prems(1)[unfolded None] this] obtain invs' where
        i': "invs = zeros_like (B ! i) # invs'"
            "inv_loop n B (Suc i) None (cov_step n B i P) m = Inr invs'" by blast
      have sq: "is_mat k k (cov_step n B i P)"
        using Suc.prems(2) by (intro cov_step_sq[OF Suc.prems(4) _ Suc.prems(3)]) simp
      show ?thesis
      proof (cases t)
        case 0
        then show ?thesis using i'(1) Bi by (simp add: zeros_like_sq zeros_sq)
      next
        case (Suc t')
        from Suc.IH[OF i'(2) _ Suc.prems(3) sq, of t'] Suc.prems(2,6) Suc
        show ?thesis using i'(1) by simp
      qed
    qed
  next
    case (Some prev)
    then have prev: "is_mat k k prev" "0 < i" using Suc.prems(5) by simp_all
    then obtain i0 where i0: "i = Suc i0" by (cases i) auto
    have Bp: "is_mat k k (B ! (i - 1))" using Suc.prems(2,3) i0 by (auto intro: rank_one_sq)
    define c_inv where "c_inv = mscale ((real_of_int n + real i - 1) / (real_of_int n + real i - 2)) prev"
    define BC1 where "BC1 = matmul (B ! (i - 1)) c_inv"
    define new_inv where "new_inv = msub c_inv (mscale (1 / (1 + trace BC1)) (matmul c_inv BC1))"
    obtain invs' where
      i': "invs = new_inv # invs'"
          "inv_loop n B (Suc i) (Some new_inv) P m = Inr invs'"
      using Suc.prems(1) unfolding Some
      by (auto simp: Let_def new_inv_def BC1_def c_inv_def split: if_splits dest!: cons_row_Inr)
    have ci: "is_mat k k c_inv" unfolding c_inv_def using prev(1) by (rule mscale_sq)
    have sq: "is_mat k k new_inv" unfolding new_inv_def BC1_def
      using ci Bp by (intro msub_sq mscale_sq matmul_sq)
    show ?thesis
    proof (cases t)
      case 0
      then show ?thesis using i'(1) sq by simp
    next
      case (Suc t')
      from Suc.IH[OF i'(2) _ Suc.prems(3) Suc.prems(4), of t'] Suc.prems(2,6) sq Suc
      show ?thesis using i'(1) by simp
    qed
  qed
qed

lemma is_inverse_empty: "is_mat 0 0 P \<Longrightarrow> is_mat 0 0 Y \<Longrightarrow> is_inverse 0 P Y"
  by (simp add: is_inverse_def is_mat_def matmul_def identity_def)

subsection \<open>Positive semidefinite matrices\<close>

lemma quad_matvec: "quad x M = dot x (matvec M x)"
  by (simp add: quad_def matvec_def)

lemma length_matvec [simp]: "length (matvec M x) = length M"
  by (simp add: matvec_def)

lemma matvec_nth: "is_mat m k M \<Longrightarrow> length x = k \<Longrightarrow> i < m \<Longrightarrow>
    matvec M x ! i = (\<Sum>t<k. M ! i ! t * x ! t)"
  by (simp add: matvec_def is_mat_length dot_sum[where k=k] is_mat_rowlen)

lemma dot_commute: "dot u v = dot v u"
proof -
  have "map2 (*) u v = map2 (*) v u"
    by (rule nth_equalityI) (simp_all add: mult.commute)
  then show ?thesis by (simp add: dot_def)
qed

lemma vec_eqI: "length u = k \<Longrightarrow> length v = k \<Longrightarrow> (\<And>i. i < k \<Longrightarrow> u ! i = v ! i) \<Longrightarrow> u = v"
  by (rule nth_equalityI) simp_all

lemma matmul_nth_rect:
  assumes "is_mat m k A" "is_mat k l B" "ncols B = l" "i < m" "j < l"
  shows "matmul A B ! i ! j = (\<Sum>t<k. A ! i ! t * B ! t ! j)"
proof -
  have "matmul A B ! i ! j = dot (A ! i) (col B j)"
    using assms by (simp add: matmul_def is_mat_length)
  also have "\<dots> = (\<Sum>t<k. A ! i ! t * col B j ! t)"
    by (rule dot_sum) (use assms in \<open>simp_all add: is_mat_rowlen col_def is_mat_length\<close>)
  also have "\<dots> = (\<Sum>t<k. A ! i ! t * B ! t ! j)"
    by (rule sum.cong) (use assms in \<open>simp_all add: col_nth is_mat_length\<close>)
  finally show ?thesis .
qed

lemma matmul_rect: "is_mat m k A \<Longrightarrow> ncols B = l \<Longrightarrow> is_mat m l (matmul A B)"
  by (rule is_matI) (simp_all add: matmul_def is_mat_length)

lemma mtranspose_rect: "is_mat p k V \<Longrightarrow> ncols V = k \<Longrightarrow> is_mat k p (mtranspose V)"
  by (rule is_matI) (simp_all add: mtranspose_def col_def is_mat_length)

lemma mtranspose_nth: "is_mat p k V \<Longrightarrow> ncols V = k \<Longrightarrow> a < k \<Longrightarrow> i < p \<Longrightarrow>
    mtranspose V ! a ! i = V ! i ! a"
  by (simp add: mtranspose_def col_def is_mat_length)

lemma matvec_matmul:
  assumes A: "is_mat m k A" and B: "is_mat k l B" and nc: "ncols B = l" and x: "length x = l"
  shows "matvec (matmul A B) x = matvec A (matvec B x)"
proof (rule vec_eqI[of _ m])
  fix i assume i: "i < m"
  have AB: "is_mat m l (matmul A B)" using A nc by (rule matmul_rect)
  have "matvec (matmul A B) x ! i = (\<Sum>j<l. (\<Sum>t<k. A ! i ! t * B ! t ! j) * x ! j)"
    using i by (simp add: matvec_nth[OF AB x] matmul_nth_rect[OF A B nc] cong: sum.cong_simp)
  also have "\<dots> = (\<Sum>j<l. \<Sum>t<k. A ! i ! t * B ! t ! j * x ! j)"
    by (simp add: sum_distrib_right)
  also have "\<dots> = (\<Sum>t<k. \<Sum>j<l. A ! i ! t * B ! t ! j * x ! j)"
    by (rule sum.swap)
  also have "\<dots> = (\<Sum>t<k. A ! i ! t * (\<Sum>j<l. B ! t ! j * x ! j))"
    by (simp add: sum_distrib_left mult.assoc)
  also have "\<dots> = matvec A (matvec B x) ! i"
    using i B by (simp add: matvec_nth[OF A, where x="matvec B x"] matvec_nth[OF B x]
        is_mat_length cong: sum.cong_simp)
  finally show "matvec (matmul A B) x ! i = matvec A (matvec B x) ! i" .
qed (use A in \<open>simp_all add: is_mat_length\<close>)

lemma dot_mtranspose:
  assumes V: "is_mat p k V" and nc: "ncols V = k" and x: "length x = k" and z: "length z = p"
  shows "dot x (matvec (mtranspose V) z) = dot (matvec V x) z"
proof -
  note T = mtranspose_rect[OF V nc]
  have "dot x (matvec (mtranspose V) z) = (\<Sum>a<k. x ! a * (\<Sum>i<p. V ! i ! a * z ! i))"
    using x T
    by (simp add: dot_sum[where k=k] is_mat_length matvec_nth[OF T z] mtranspose_nth[OF V nc]
        cong: sum.cong_simp)
  also have "\<dots> = (\<Sum>a<k. \<Sum>i<p. x ! a * V ! i ! a * z ! i)"
    by (simp add: sum_distrib_left mult.assoc)
  also have "\<dots> = (\<Sum>i<p. \<Sum>a<k. x ! a * V ! i ! a * z ! i)"
    by (rule sum.swap)
  also have "\<dots> = (\<Sum>i<p. (\<Sum>a<k. V ! i ! a * x ! a) * z ! i)"
  proof (rule sum.cong)
    fix i assume "i \<in> {..<p}"
    have "(\<Sum>a<k. x ! a * V ! i ! a * z ! i) = (\<Sum>a<k. V ! i ! a * x ! a * z ! i)"
      by (rule sum.cong) (simp_all add: mult.commute)
    then show "(\<Sum>a<k. x ! a * V ! i ! a * z ! i) = (\<Sum>a<k. V ! i ! a * x ! a) * z ! i"
      by (simp only: sum_distrib_right)
  qed simp
  also have "\<dots> = dot (matvec V x) z"
    using z V by (simp add: dot_sum[where k=p] is_mat_length matvec_nth[OF V x]
        cong: sum.cong_simp)
  finally show ?thesis .
qed

lemma psd_projection:
  assumes C: "psd p C" and V: "is_mat p k V" and nc: "ncols V = k"
  shows "psd k (matmul (mtranspose V) (matmul C V))"
  unfolding psd_def
proof (intro conjI allI impI)
  have Cm: "is_mat p p C" using C by (simp add: psd_def)
  note T = mtranspose_rect[OF V nc]
  have CV: "is_mat p k (matmul C V)" using Cm nc by (rule matmul_rect)
  have ncCV: "ncols (matmul C V) = k"
    using V nc Cm by (cases C) (auto simp: ncols_def matmul_def is_mat_def)
  show "is_mat k k (matmul (mtranspose V) (matmul C V))" using T ncCV by (rule matmul_rect)
  fix x :: vec assume x: "length x = k"
  have "matvec (matmul (mtranspose V) (matmul C V)) x
          = matvec (mtranspose V) (matvec (matmul C V) x)"
    using T CV ncCV x by (rule matvec_matmul)
  also have "matvec (matmul C V) x = matvec C (matvec V x)"
    using Cm V nc x by (rule matvec_matmul)
  finally have "quad x (matmul (mtranspose V) (matmul C V))
          = dot x (matvec (mtranspose V) (matvec C (matvec V x)))"
    by (simp add: quad_matvec)
  also have "\<dots> = dot (matvec V x) (matvec C (matvec V x))"
    using V nc x by (rule dot_mtranspose) (use Cm in \<open>simp add: is_mat_length\<close>)
  also have "\<dots> = quad (matvec V x) C" by (simp add: quad_matvec)
  finally show "0 \<le> quad x (matmul (mtranspose V) (matmul C V))"
    using C V by (simp add: psd_def is_mat_length)
qed

lemma psd_rank_one_rank_one: "psd_rank_one k M \<Longrightarrow> rank_one k M"
  by (auto simp: psd_rank_one_def rank_one_def)

lemma quad_sum:
  assumes "is_mat k k M" "length x = k"
  shows "quad x M = (\<Sum>i<k. x ! i * (\<Sum>j<k. M ! i ! j * x ! j))"
  using assms
  by (simp add: quad_matvec dot_sum[where k=k] is_mat_length matvec_nth[where m=k and k=k]
      cong: sum.cong_simp)

lemma quad_madd:
  assumes "is_mat k k A" "is_mat k k B" "length x = k"
  shows "quad x (madd A B) = quad x A + quad x B"
  using assms
  by (simp add: quad_sum[where k=k] madd_sq madd_nth[where m=k and k=k] distrib_left
      distrib_right sum.distrib cong: sum.cong_simp)

lemma quad_mscale:
  assumes "is_mat k k A" "length x = k"
  shows "quad x (mscale c A) = c * quad x A"
  using assms
  by (simp add: quad_sum[where k=k] mscale_sq mscale_nth[where m=k and k=k] sum_distrib_left
      mult_ac cong: sum.cong_simp)

lemma quad_outer:
  assumes "length d = k" "length x = k"
  shows "quad x (outer d d) = (dot d x)\<^sup>2"
proof -
  have "quad x (outer d d) = (\<Sum>i<k. x ! i * (\<Sum>j<k. d ! i * d ! j * x ! j))"
    using assms by (simp add: quad_sum[where k=k] outer_sq outer_nth cong: sum.cong_simp)
  also have "\<dots> = (\<Sum>i<k. (d ! i * x ! i) * (\<Sum>j<k. d ! j * x ! j))"
    by (rule sum.cong) (simp_all add: sum_distrib_left mult_ac)
  also have "\<dots> = (\<Sum>i<k. d ! i * x ! i) * (\<Sum>j<k. d ! j * x ! j)"
    by (simp add: sum_distrib_right)
  also have "\<dots> = (dot d x)\<^sup>2"
    using assms by (simp add: dot_sum[where k=k] power2_eq_square)
  finally show ?thesis .
qed

lemma psd_zeros: "psd k (zeros k k)"
  by (simp add: psd_def zeros_sq quad_zeros)

lemma psd_madd: "psd k A \<Longrightarrow> psd k B \<Longrightarrow> psd k (madd A B)"
  by (simp add: psd_def madd_sq quad_madd[where k=k])

lemma psd_mscale: "psd k A \<Longrightarrow> 0 \<le> c \<Longrightarrow> psd k (mscale c A)"
  by (simp add: psd_def mscale_sq quad_mscale[where k=k])

lemma psd_outer: "length d = k \<Longrightarrow> psd k (outer d d)"
  by (simp add: psd_def outer_sq quad_outer[where k=k])

lemma psd_rank_one_psd: "psd_rank_one k M \<Longrightarrow> psd k M"
  by (auto simp: psd_rank_one_def intro!: psd_mscale psd_outer)

lemma psd_msum: "\<forall>B\<in>set Bs. psd p B \<Longrightarrow> psd p (msum p Bs)"
  by (induction Bs) (simp_all add: msum_def psd_zeros psd_madd)

lemma mscale_zeros: "mscale c (zeros m k) = zeros m k"
  by (simp add: mscale_def zeros_def vscale_def)

lemma matvec_identity: "length d = k \<Longrightarrow> matvec (identity k) d = d"
proof (rule vec_eqI[of _ k])
  fix i assume d: "length d = k" and i: "i < k"
  have "matvec (identity k) d ! i = (\<Sum>t<k. (if i = t then 1 else 0) * d ! t)"
    using i d by (simp add: matvec_nth[OF identity_sq] identity_nth cong: sum.cong_simp)
  also have "\<dots> = (\<Sum>t<k. if t = i then d ! i else 0)"
    by (rule sum.cong) auto
  also have "\<dots> = d ! i" using i by simp
  finally show "matvec (identity k) d ! i = d ! i" .
qed (simp_all add: identity_def)

lemma quad_inverse_nonneg:
  assumes A: "psd k A" and inv: "is_inverse k A Y" and d: "length d = k"
  shows "0 \<le> quad d Y"
proof -
  note Y = is_inverseD[OF inv]
  have Am: "is_mat k k A" using A by (simp add: psd_def)
  define y where "y = matvec Y d"
  have ly: "length y = k" using Y(1) by (simp add: y_def is_mat_length)
  have "matvec A y = matvec (matmul A Y) d"
    unfolding y_def using matvec_matmul[OF Am Y(1) ncols_sq[OF Y(1)] d] by simp
  also have "\<dots> = d" using Y(2) d by (simp add: matvec_identity)
  finally have "quad y A = dot y d" by (simp add: quad_matvec)
  also have "\<dots> = quad d Y" by (simp add: quad_matvec y_def dot_commute)
  finally have "quad y A = quad d Y" .
  moreover have "0 \<le> quad y A" using A ly unfolding psd_def by blast
  ultimately show ?thesis by simp
qed

lemma trace_rank_one:
  assumes Y: "is_mat k k Y" and d: "length d = k"
  shows "trace (matmul (mscale c (outer d d)) Y) = c * quad d Y"
proof -
  have B: "is_mat k k (mscale c (outer d d))" using d by (intro mscale_sq outer_sq)
  have "trace (matmul (mscale c (outer d d)) Y)
      = (\<Sum>u<k. \<Sum>t<k. c * (d ! u * d ! t) * Y ! t ! u)"
    using d Y B
    by (simp add: trace_sum[OF matmul_sq[OF B Y]] matmul_nth[OF B Y]
        mscale_nth[where m=k and k=k] outer_sq outer_nth cong: sum.cong_simp)
  also have "\<dots> = (\<Sum>t<k. \<Sum>u<k. c * (d ! u * d ! t) * Y ! t ! u)"
    by (rule sum.swap)
  also have "\<dots> = c * (\<Sum>t<k. d ! t * (\<Sum>u<k. Y ! t ! u * d ! u))"
    by (simp add: sum_distrib_left mult_ac)
  also have "\<dots> = c * quad d Y"
    using Y d by (simp add: quad_sum[where k=k])
  finally show ?thesis .
qed

lemma rank_one_sandwich:
  assumes Y: "is_mat k k Y" and d: "length d = k"
  shows "matmul (matmul (mscale c (outer d d)) Y) (mscale c (outer d d))
           = mscale (trace (matmul (mscale c (outer d d)) Y)) (mscale c (outer d d))"
proof -
  define B where "B = mscale c (outer d d)"
  define W where "W = matmul B Y"
  define w where "w j = (\<Sum>t<k. d ! t * Y ! t ! j)" for j
  have B: "is_mat k k B" unfolding B_def using d by (intro mscale_sq outer_sq)
  have W: "is_mat k k W" unfolding W_def using B Y by (rule matmul_sq)
  have Bij: "B ! i ! j = c * (d ! i * d ! j)" if "i < k" "j < k" for i j
    unfolding B_def using that d
    by (simp add: mscale_nth[where m=k and k=k] outer_sq outer_nth)
  have Wij: "W ! i ! j = c * d ! i * w j" if "i < k" "j < k" for i j
    unfolding W_def w_def using that B Y
    by (simp add: matmul_nth[where k=k] Bij sum_distrib_left mult.assoc cong: sum.cong_simp)
  have tr: "trace W = (\<Sum>u<k. c * d ! u * w u)"
    by (simp add: trace_sum[OF W] Wij cong: sum.cong_simp)
  have "matmul W B = mscale (trace W) B"
  proof (rule mat_eqI[of k k])
    fix i j assume ij: "i < k" "j < k"
    have "matmul W B ! i ! j = (\<Sum>u<k. (c * d ! i * w u) * (c * (d ! u * d ! j)))"
      using ij W B by (simp add: matmul_nth[where k=k] Wij Bij cong: sum.cong_simp)
    also have "\<dots> = (\<Sum>u<k. (c * d ! u * w u) * (c * (d ! i * d ! j)))"
      by (rule sum.cong) (simp_all add: mult_ac)
    also have "\<dots> = trace W * B ! i ! j"
      using ij by (simp add: tr Bij sum_distrib_right)
    also have "\<dots> = mscale (trace W) B ! i ! j"
      using ij B by (simp add: mscale_nth[where m=k and k=k])
    finally show "matmul W B ! i ! j = mscale (trace W) B ! i ! j" .
  qed (use W B in \<open>simp_all add: mat_sq\<close>)
  then show ?thesis unfolding W_def B_def .
qed

lemma sherman_morrison_nz:
  assumes A: "is_mat k k A" and inv: "is_inverse k A Y" and d: "length d = k"
    and nz: "1 + trace (matmul (mscale c (outer d d)) Y) \<noteq> 0"
  shows "is_inverse k (madd A (mscale c (outer d d)))
           (msub Y (mscale (1 / (1 + trace (matmul (mscale c (outer d d)) Y)))
                      (matmul Y (matmul (mscale c (outer d d)) Y))))"
proof -
  define B where "B = mscale c (outer d d)"
  define W where "W = matmul B Y"
  define U where "U = matmul Y B"
  define t where "t = trace W"
  define s where "s = 1 / (1 + t)"
  note Y = is_inverseD[OF inv]
  have B: "is_mat k k B" unfolding B_def using d by (intro mscale_sq outer_sq)
  have W: "is_mat k k W" unfolding W_def using B Y(1) by (rule matmul_sq)
  have U: "is_mat k k U" unfolding U_def using Y(1) B by (rule matmul_sq)
  have YW: "is_mat k k (matmul Y W)" using Y(1) W by (rule matmul_sq)
  have S: "is_mat k k (madd A B)" using A B by (rule madd_sq)
  have nz': "1 + t \<noteq> 0" using nz by (simp add: t_def W_def B_def)
  have WW: "matmul W W = mscale t W"
    unfolding W_def B_def t_def using rank_one_square[OF Y(1) d] .
  have WB: "matmul W B = mscale t B"
    unfolding W_def B_def t_def using rank_one_sandwich[OF Y(1) d] .
  define Z where "Z = msub Y (mscale s (matmul Y W))"
  have Z: "is_mat k k Z" unfolding Z_def using Y(1) YW by (intro msub_sq mscale_sq)
  have key: "matmul (madd A B) (matmul Y W) = mscale (1 + t) W"
  proof -
    have "matmul (madd A B) (matmul Y W) = madd (matmul A (matmul Y W)) (matmul B (matmul Y W))"
      using A B YW by (rule matmul_madd_left)
    also have "matmul A (matmul Y W) = W"
      using matmul_assoc[OF A Y(1) W] Y(2) W by (simp add: matmul_identity_left)
    also have "matmul B (matmul Y W) = mscale t W"
      using matmul_assoc[OF B Y(1) W] WW by (simp add: W_def)
    also have "madd W (mscale t W) = mscale (1 + t) W"
      by (rule mat_eqI[of k k])
         (use W in \<open>simp_all add: madd_nth[where m=k and k=k] mscale_nth[where m=k and k=k]
                       mat_sq algebra_simps\<close>)
    finally show ?thesis .
  qed
  have right: "matmul (madd A B) Z = identity k"
  proof -
    have "matmul (madd A B) Z
        = msub (matmul (madd A B) Y) (matmul (madd A B) (mscale s (matmul Y W)))"
      unfolding Z_def using S Y(1) YW by (intro matmul_msub_right mscale_sq)
    also have "matmul (madd A B) Y = madd (identity k) W"
      using matmul_madd_left[OF A B Y(1)] Y(2) by (simp add: W_def)
    also have "matmul (madd A B) (mscale s (matmul Y W)) = mscale s (mscale (1 + t) W)"
      using matmul_mscale_right[OF S YW] key by simp
    also have "msub (madd (identity k) W) (mscale s (mscale (1 + t) W)) = identity k"
      by (rule mat_eqI[of k k])
         (use W nz' in \<open>simp_all add: madd_nth[where m=k and k=k] msub_nth[where m=k and k=k]
                       mscale_nth[where m=k and k=k] mat_sq s_def\<close>)
    finally show ?thesis .
  qed
  have key': "matmul (matmul Y W) (madd A B) = mscale (1 + t) U"
  proof -
    have "matmul (matmul Y W) (madd A B) = madd (matmul (matmul Y W) A) (matmul (matmul Y W) B)"
      using YW A B by (rule matmul_madd_right)
    also have "matmul (matmul Y W) A = U"
    proof -
      have "matmul (matmul Y W) A = matmul Y (matmul W A)"
        using Y(1) W A by (rule matmul_assoc)
      also have "matmul W A = B"
        unfolding W_def using matmul_assoc[OF B Y(1) A] Y(3) B
        by (simp add: matmul_identity_right)
      finally show ?thesis by (simp add: U_def)
    qed
    also have "matmul (matmul Y W) B = mscale t U"
    proof -
      have "matmul (matmul Y W) B = matmul Y (matmul W B)"
        using Y(1) W B by (rule matmul_assoc)
      then show ?thesis
        using WB matmul_mscale_right[OF Y(1) B] by (simp add: U_def)
    qed
    also have "madd U (mscale t U) = mscale (1 + t) U"
      by (rule mat_eqI[of k k])
         (use U in \<open>simp_all add: madd_nth[where m=k and k=k] mscale_nth[where m=k and k=k]
                       mat_sq algebra_simps\<close>)
    finally show ?thesis .
  qed
  have left: "matmul Z (madd A B) = identity k"
  proof -
    have sYW: "is_mat k k (mscale s (matmul Y W))" using YW by (rule mscale_sq)
    have "matmul Z (madd A B)
        = msub (matmul Y (madd A B)) (matmul (mscale s (matmul Y W)) (madd A B))"
      unfolding Z_def
      by (rule mat_eqI[of k k])
         (use Y(1) sYW S in \<open>simp_all add: matmul_nth[where k=k] msub_nth[where m=k and k=k]
            mat_sq left_diff_distrib sum_subtractf cong: sum.cong_simp\<close>)
    also have "matmul Y (madd A B) = madd (identity k) U"
      using matmul_madd_right[OF Y(1) A B] Y(3) by (simp add: U_def)
    also have "matmul (mscale s (matmul Y W)) (madd A B) = mscale s (mscale (1 + t) U)"
      using matmul_mscale_left[OF YW S] key' by simp
    also have "msub (madd (identity k) U) (mscale s (mscale (1 + t) U)) = identity k"
      by (rule mat_eqI[of k k])
         (use U nz' in \<open>simp_all add: madd_nth[where m=k and k=k] msub_nth[where m=k and k=k]
                       mscale_nth[where m=k and k=k] mat_sq s_def\<close>)
    finally show ?thesis .
  qed
  have "is_inverse k (madd A B) Z" using Z right left by (simp add: is_inverse_def)
  then show ?thesis unfolding Z_def s_def t_def W_def B_def .
qed

lemma sherman_morrison_psd:
  assumes A: "psd k A" and inv: "is_inverse k A Y" and d: "length d = k" and c: "0 \<le> c"
  shows "is_inverse k (madd A (mscale c (outer d d)))
           (msub Y (mscale (1 / (1 + trace (matmul (mscale c (outer d d)) Y)))
                      (matmul Y (matmul (mscale c (outer d d)) Y))))"
proof -
  have Am: "is_mat k k A" using A by (simp add: psd_def)
  have "0 \<le> c * quad d Y" using quad_inverse_nonneg[OF A inv d] c by simp
  then have "1 + trace (matmul (mscale c (outer d d)) Y) \<noteq> 0"
    using trace_rank_one[OF is_inverseD(1)[OF inv] d, of c] by simp
  from sherman_morrison_nz[OF Am inv d this] show ?thesis .
qed

subsection \<open>The inverses after the seed\<close>

lemma cov_step_psd:
  assumes "psd k P" "i < length B" "\<forall>j<length B. psd_rank_one k (B ! j)" "0 \<le> n"
  shows "psd k (cov_step n B i P)"
proof (cases "n + int i = 0")
  case True
  then show ?thesis using assms(1) by (simp add: cov_step_def)
next
  case False
  with assms(4) have "1 \<le> n + int i" by simp
  then have "1 \<le> real_of_int (n + int i)" by (simp only: of_int_le_iff[of 1, simplified])
  then have c: "0 \<le> (real_of_int n + real i - 1) / (real_of_int n + real i)" by simp
  have "psd k (B ! i)" using assms(2,3) by (auto intro: psd_rank_one_psd)
  with psd_mscale[OF assms(1) c] show ?thesis using False
    by (simp add: cov_step_def psd_madd)
qed

lemma running_cov_psd:
  assumes "psd k P" "i + j \<le> length B" "\<forall>j<length B. psd_rank_one k (B ! j)" "0 \<le> n"
  shows "psd k (running_cov n B i P j)"
  using assms
proof (induction j arbitrary: i P)
  case 0
  then show ?case by simp
next
  case (Suc j)
  have "psd k (cov_step n B i P)"
    using Suc.prems by (intro cov_step_psd) auto
  from Suc.IH[OF this _ Suc.prems(3,4)] Suc.prems(2) show ?case by simp
qed

lemma inv_loop_seeded_psd:
  assumes "inv_loop n B (Suc i) (Some prev) Pc m = Inr invs"
    and "Suc i + m \<le> length B" "\<forall>j<length B. psd_rank_one k (B ! j)"
    and "psd k Q" "is_inverse k Q prev" "0 < n + int i"
    and "t < m"
  shows "is_inverse k (running_cov n B i Q (Suc t)) (invs ! t)"
  using assms
proof (induction m arbitrary: i prev Q invs t)
  case 0
  then show ?case by simp
next
  case (Suc m)
  define a where "a = (real_of_int n + real i - 1) / (real_of_int n + real i)"
  define c_inv where "c_inv = mscale ((real_of_int n + real (Suc i) - 1) / (real_of_int n + real (Suc i) - 2)) prev"
  define BC1 where "BC1 = matmul (B ! i) c_inv"
  define new_inv where "new_inv = msub c_inv (mscale (1 / (1 + trace BC1)) (matmul c_inv BC1))"
  have nz: "n + int (Suc i) - 2 \<noteq> 0"
    using Suc.prems(1) by (auto split: if_splits)
  then have "2 \<le> n + int i" using Suc.prems(6) by simp
  then have "2 \<le> real_of_int (n + int i)" by (simp only: of_int_le_iff[of 2, simplified])
  then have pos: "0 < real_of_int n + real i - 1" "0 < real_of_int n + real i"
    by simp_all
  obtain invs' where
    i': "invs = new_inv # invs'"
        "inv_loop n B (Suc (Suc i)) (Some new_inv) Pc m = Inr invs'"
    using Suc.prems(1) nz
    by (auto simp: Let_def new_inv_def BC1_def c_inv_def dest!: cons_row_Inr)
  have a0: "a \<noteq> 0" "0 \<le> a" using pos by (simp_all add: a_def)
  have ci: "c_inv = mscale (1 / a) prev"
    by (simp add: c_inv_def a_def)
  have R0: "running_cov n B i Q (Suc 0) = madd (mscale a Q) (B ! i)"
    using Suc.prems(6) by (simp add: cov_step_def a_def)
  have "i < length B" using Suc.prems(2) by simp
  with Suc.prems(3) obtain c d where
    Bi: "B ! i = mscale c (outer d d)" "length d = k" "0 \<le> c"
    unfolding psd_rank_one_def by blast
  have Qm: "is_mat k k Q" using Suc.prems(4) by (simp add: psd_def)
  have aQ: "psd k (mscale a Q)" using Suc.prems(4) a0(2) by (rule psd_mscale)
  have sc: "is_inverse k (mscale a Q) c_inv"
    unfolding ci by (rule is_inverse_mscale[OF Qm Suc.prems(5) a0(1)])
  have new: "is_inverse k (running_cov n B i Q (Suc 0)) new_inv"
    unfolding R0 Bi(1) new_inv_def BC1_def
    using sherman_morrison_psd[OF aQ sc Bi(2) Bi(3)] by (simp add: Bi(1))
  show ?case
  proof (cases t)
    case 0
    with new i'(1) show ?thesis by simp
  next
    case (Suc t')
    have sq: "psd k (running_cov n B i Q (Suc 0))"
      unfolding R0 Bi(1) using aQ psd_mscale[OF psd_outer[OF Bi(2)] Bi(3)] by (rule psd_madd)
    from Suc.IH[OF i'(2) _ Suc.prems(3) sq new] Suc.prems(2,6,7) Suc
    have "is_inverse k (running_cov n B (Suc i) (running_cov n B i Q (Suc 0)) (Suc t')) (invs' ! t')"
      by simp
    then show ?thesis using i'(1) Suc by simp
  qed
qed

lemma inv_loop_correct_psd:
  assumes loop: "inv_loop n B 0 None P0 (length B) = Inr invs"
    and B: "\<forall>j<length B. psd_rank_one k (B ! j)" and P0: "psd k P0" and n: "0 \<le> n"
    and i: "i0 \<le> i" "i < length B"
    and small: "\<forall>j<i0. \<bar>det (running_cov n B 0 P0 j)\<bar> \<le> EPSILON"
    and seed: "\<bar>det (running_cov n B 0 P0 i0)\<bar> > EPSILON"
    and seed_inv: "is_inverse k (running_cov n B 0 P0 i0) (invs ! i0)"
    and pos: "0 < n + int i0"
  shows "is_inverse k (running_cov n B 0 P0 i) (invs ! i)"
proof -
  define Q where "Q = running_cov n B 0 P0 i0"
  have i0: "i0 < length B" using i by simp
  then obtain m' where m': "length B - i0 = Suc m'" by (cases "length B - i0") auto
  from inv_loop_prefix[OF loop _ small] i0
  have "inv_loop n B i0 None Q (length B - i0) = Inr (drop i0 invs)"
    by (simp add: Q_def)
  from inv_loop_None_seed[OF this[unfolded m'] seed[folded Q_def]] obtain invs' where
    i': "drop i0 invs = mat_inv Q # invs'"
        "inv_loop n B (Suc i0) (Some (mat_inv Q)) Q m' = Inr invs'" by blast
  have len: "length invs = length B" using inv_loop_length[OF loop] .
  have at0: "invs ! i0 = mat_inv Q"
    using i'(1) i0 len by (metis nth_via_drop)
  show ?thesis
  proof (cases "i = i0")
    case True
    then show ?thesis using seed_inv by simp
  next
    case False
    define t where "t = i - Suc i0"
    have it: "i = i0 + Suc t" using False i(1) by (simp add: t_def)
    have tm: "t < m'" using it i(2) m' by simp
    have Qpsd: "psd k Q" unfolding Q_def
      using i0 by (intro running_cov_psd[OF P0 _ B n]) simp
    have rc: "running_cov n B 0 P0 (i0 + j) = running_cov n B i0 Q j" for j
      using running_cov_add[of n B 0 P0 i0 j] by (simp add: Q_def)
    have "is_inverse k Q (mat_inv Q)" using seed_inv at0 by (simp add: Q_def)
    from inv_loop_seeded_psd[OF i'(2) _ B Qpsd this pos tm] m'
    have "is_inverse k (running_cov n B i0 Q (Suc t)) (invs' ! t)" by simp
    moreover have "invs ! i = invs' ! t"
    proof -
      have "invs ! (i0 + Suc t) = drop i0 invs ! Suc t"
        using len i(2) it by simp
      then show ?thesis using i'(1) it by simp
    qed
    ultimately show ?thesis using rc[of "Suc t"] it by simp
  qed
qed

lemma np_clip_length:
  "length lo = length x \<Longrightarrow> length hi = length x \<Longrightarrow> length (np_clip lo hi x) = length x"
  by (simp add: np_clip_def)

lemma clip_X_rows:
  assumes "clip_X self X = Inr Xclip" "list_all (\<lambda>r. length r = p) X"
  shows "list_all (\<lambda>r. length r = p) Xclip"
  using assms
  by (auto simp: clip_X_def list_all_iff np_clip_length split: if_splits option.splits)

lemma cumsum_from_rows:
  "length acc = p \<Longrightarrow> list_all (\<lambda>r. length r = p) xs \<Longrightarrow>
     length (cumsum_from acc xs) = length xs \<and> list_all (\<lambda>r. length r = p) (cumsum_from acc xs)"
  by (induction xs arbitrary: acc) (simp_all add: vadd_def)

lemma cumsum_rows:
  "list_all (\<lambda>r. length r = p) X \<Longrightarrow>
     length (cumsum X) = length X \<and> list_all (\<lambda>r. length r = p) (cumsum X)"
  by (cases X) (simp_all add: cumsum_def cumsum_from_rows)

lemma new_means_rows:
  assumes "length mean0 = p" "list_all (\<lambda>r. length r = p) Xclip" "i < length Xclip"
  shows "length (new_means mean0 n Xclip ! i) = p"
proof -
  have "length (cumsum Xclip ! i) = p"
    using cumsum_rows[OF assms(2)] assms(3) by (simp add: list_all_length)
  then show ?thesis
    using assms by (simp add: new_means_def roll_partial_means_def vadd_def vsub_def vscale_def)
qed

lemma new_means_offset_rows:
  assumes "length mean0 = p" "list_all (\<lambda>r. length r = p) Xclip" "i < length Xclip"
  shows "length (new_means_offset mean0 (new_means mean0 n Xclip) ! i) = p"
proof (cases i)
  case 0
  then show ?thesis using assms(1) by (simp add: new_means_offset_def)
next
  case (Suc i')
  have len: "length (new_means mean0 n Xclip) = length Xclip" by (simp add: new_means_def)
  have "new_means_offset mean0 (new_means mean0 n Xclip) ! i = new_means mean0 n Xclip ! i'"
    using Suc assms(3) len by (simp add: new_means_offset_def nth_butlast)
  then show ?thesis using new_means_rows[OF assms(1,2), of i' n] Suc assms(3) by simp
qed

lemma cov_B_psd:
  assumes "length mean0 = p" "list_all (\<lambda>r. length r = p) Xclip" "0 \<le> n"
  shows "\<forall>B\<in>set (cov_B n Xclip (new_means_offset mean0 (new_means mean0 n Xclip))). psd p B"
proof
  fix B assume "B \<in> set (cov_B n Xclip (new_means_offset mean0 (new_means mean0 n Xclip)))"
  then obtain i where i: "i < length Xclip"
    and B: "B = mscale ((real_of_int n + real i) / (real_of_int n + real i + 1))
              (outer (vsub (Xclip ! i) (new_means_offset mean0 (new_means mean0 n Xclip) ! i))
                     (vsub (Xclip ! i) (new_means_offset mean0 (new_means mean0 n Xclip) ! i)))"
    by (auto simp: cov_B_def)
  have "length (Xclip ! i) = p" using assms(2) i by (simp add: list_all_length)
  then have d: "length (vsub (Xclip ! i) (new_means_offset mean0 (new_means mean0 n Xclip) ! i)) = p"
    using new_means_offset_rows[OF assms(1,2) i, of n] by (simp add: vsub_def)
  have "0 \<le> (real_of_int n + real i) / (real_of_int n + real i + 1)"
    using assms(3) by simp
  then show "psd p B" unfolding B by (intro psd_mscale psd_outer d)
qed

lemma cov_batch_psd:
  assumes "psd p C0" "\<forall>B\<in>set Bs. psd p B" "0 \<le> n" "n = 0 \<longrightarrow> C0 = zeros p p"
  shows "psd p (cov_batch n p C0 Bs)"
proof -
  define den where "den = real_of_int n + max 1 (real (length Bs) - 1)"
  have den: "0 < den" using assms(3) by (simp add: den_def)
  have S: "psd p (mscale (1 / den) (msum p Bs))"
    using den by (intro psd_mscale psd_msum assms(2)) simp
  have "psd p (mscale ((real_of_int n - 1) / den) C0)"
  proof (cases "n = 0")
    case True
    then show ?thesis using assms(4) by (simp add: mscale_zeros psd_zeros)
  next
    case False
    with assms(3) have "1 \<le> n" by simp
    then have "1 \<le> real_of_int n" by simp
    then have "0 \<le> (real_of_int n - 1) / den" using den by simp
    then show ?thesis using assms(1) by (intro psd_mscale)
  qed
  then show ?thesis using S by (simp add: cov_batch_def Let_def den_def psd_madd)
qed

lemma psd_length: "psd k M \<Longrightarrow> length M = k"
  by (simp add: psd_def is_mat_def)

lemma locals_psd:
  assumes L: "get_locals eigh self X = Inr L"
    and n: "0 \<le> self_n self" "self_n self = 0 \<longrightarrow> self_C self = None"
    and C: "\<forall>C. self_C self = Some C \<longrightarrow> psd (length C) C"
  shows "\<forall>j<length (l_B L). psd_rank_one (nat (n_comp self X)) (l_B L ! j)"
    and "psd (nat (n_comp self X)) (l_proj_cov L)"
    and "psd (length (l_cov_batch L)) (l_cov_batch L)"
proof -
  define k where "k = nat (n_comp self X)"
  define p where "p = length (hd X)"
  have "\<exists>Xclip nm nmo covb V invs.
      clip_X self X = Inr Xclip \<and> X \<noteq> [] \<and> shape_ok self p X \<and>
      moments self p Xclip = (nm, nmo, covb) \<and> 0 \<le> n_comp self X \<and> is_mat p k V \<and>
      inv_loop (effective_n self) (inv_B (effective_n self) (matmul Xclip V) (matmul nmo V))
       0 None
       (case self_C self of None \<Rightarrow> zeros k k | Some C \<Rightarrow> matmul (mtranspose V) (matmul C V))
       (length (inv_B (effective_n self) (matmul Xclip V) (matmul nmo V))) = Inr invs \<and>
      L = scoring self (effective_n self) Xclip nm nmo covb invs V (matmul X V)
           (matmul Xclip V) (matmul nmo V)
           (case self_C self of None \<Rightarrow> zeros k k | Some C \<Rightarrow> matmul (mtranspose V) (matmul C V))"
    unfolding k_def p_def
    by (rule get_locals_InrE[OF L], intro exI conjI; assumption)
  then obtain Xclip nm nmo covb V invs where
    c: "clip_X self X = Inr Xclip" and ne: "X \<noteq> []" and sh: "shape_ok self p X"
    and mo: "moments self p Xclip = (nm, nmo, covb)"
    and nc: "0 \<le> n_comp self X" and V: "is_mat p k V"
    and Ldef: "L = scoring self (effective_n self) Xclip nm nmo covb invs V (matmul X V)
           (matmul Xclip V) (matmul nmo V)
           (case self_C self of None \<Rightarrow> zeros k k | Some C \<Rightarrow> matmul (mtranspose V) (matmul C V))"
    by blast
  have f: "l_B L = inv_B (effective_n self) (matmul Xclip V) (matmul nmo V)"
    "l_cov_batch L = covb"
    "l_proj_cov L = (case self_C self of None \<Rightarrow> zeros k k
                     | Some C \<Rightarrow> matmul (mtranspose V) (matmul C V))"
    unfolding Ldef by (simp_all add: scoring_def Let_def)
  have en: "0 \<le> effective_n self" "effective_n self = 0 \<longrightarrow> self_C self = None"
    using n by (auto simp: effective_n_def)
  have lenc: "length Xclip = length X" using c by (rule clip_X_length)
  then have nec: "Xclip \<noteq> []" using ne by auto
  then have lenm: "length nmo = length X" using moments_lengths(2)[OF mo] lenc by simp
  have pk: "p = 0 \<longrightarrow> k = 0" using nc by (auto simp: k_def n_comp_def p_def)
  have ncV: "ncols V = k" using V pk by (rule ncols_eigvects)
  have rows: "\<forall>j<length (matmul Xclip V).
      length (matmul Xclip V ! j) = k \<and> length (matmul nmo V ! j) = k"
    using lenc lenm by (simp add: matmul_row_length ncV)
  show "\<forall>j<length (l_B L). psd_rank_one (nat (n_comp self X)) (l_B L ! j)"
  proof (intro allI impI)
    fix j assume "j < length (l_B L)"
    then have j: "j < length (matmul Xclip V)" by (simp add: f inv_B_def)
    then have "length (vsub (matmul Xclip V ! j) (matmul nmo V ! j)) = k"
      using rows by (simp add: vsub_def)
    moreover have "l_B L ! j =
        mscale (1 / (real_of_int (effective_n self) + real j + 1))
          (outer (vsub (matmul Xclip V ! j) (matmul nmo V ! j))
                 (vsub (matmul Xclip V ! j) (matmul nmo V ! j)))"
      using j by (simp add: f inv_B_def)
    moreover have "0 \<le> 1 / (real_of_int (effective_n self) + real j + 1)"
      using en(1) by simp
    ultimately show "psd_rank_one (nat (n_comp self X)) (l_B L ! j)"
      unfolding psd_rank_one_def k_def[symmetric] by blast
  qed
  show "psd (nat (n_comp self X)) (l_proj_cov L)"
  proof (cases "self_C self")
    case None
    then show ?thesis by (simp add: f psd_zeros k_def)
  next
    case (Some C0)
    then have "is_mat p p C0" using sh by (simp add: shape_ok_def)
    moreover have "psd (length C0) C0" using C Some by simp
    ultimately have "psd p C0" by (simp add: is_mat_def)
    from psd_projection[OF this V ncV] Some show ?thesis by (simp add: f k_def)
  qed
  show "psd (length (l_cov_batch L)) (l_cov_batch L)"
  proof -
    define mean0 where "mean0 = (case self_mean self of None \<Rightarrow> replicate p 0 | Some m \<Rightarrow> m)"
    define C0 where "C0 = (case self_C self of None \<Rightarrow> zeros p p | Some C \<Rightarrow> C)"
    have m0: "length mean0 = p"
      using sh by (auto simp: mean0_def shape_ok_def split: option.splits)
    have rowsX: "list_all (\<lambda>r. length r = p) Xclip"
      using sh by (intro clip_X_rows[OF c]) (simp add: shape_ok_def)
    have C0psd: "psd p C0"
    proof (cases "self_C self")
      case None
      then show ?thesis by (simp add: C0_def psd_zeros)
    next
      case (Some C1)
      then have "is_mat p p C1" using sh by (simp add: shape_ok_def)
      moreover have "psd (length C1) C1" using C Some by simp
      ultimately show ?thesis using Some by (simp add: is_mat_def C0_def)
    qed
    have z: "effective_n self = 0 \<longrightarrow> C0 = zeros p p"
      using en(2) by (auto simp: C0_def)
    have "covb = cov_batch (effective_n self) p C0
        (cov_B (effective_n self) Xclip
           (new_means_offset mean0 (new_means mean0 (effective_n self) Xclip)))"
      using mo by (auto simp: moments_def Let_def mean0_def C0_def)
    then have "psd p covb"
      using cov_batch_psd[OF C0psd cov_B_psd[OF m0 rowsX en(1)] en(1) z] by simp
    then show ?thesis using psd_length[of p covb] by (simp add: f)
  qed
qed

lemma reachable_psd:
  assumes "reachable eigh self"
  shows "\<forall>C. self_C self = Some C \<longrightarrow> psd (length C) C"
  using assms
proof (induction rule: reachable.induct)
  case (reachable_init threshold n_components n_stdev start_clip max_n)
  show ?case by (simp add: init_def)
next
  case (reachable_call self X)
  show ?case
  proof (rule get_preds_cases[of eigh self X])
    fix e assume "get_preds eigh self X = (Inl e, self)"
    with reachable_call.IH show ?thesis by simp
  next
    fix L assume l: "get_locals eigh self X = Inr L"
      and g: "get_preds eigh self X = (Inr (l_prediction L), commit self (length X) L)"
    note rc = reachable_count[OF reachable_call.hyps]
    from locals_psd(3)[OF l _ _ reachable_call.IH] rc
    have "psd (length (l_cov_batch L)) (l_cov_batch L)" by blast
    then show ?thesis unfolding g by (simp add: commit_fields)
  qed
qed

subsection \<open>The variances under the square root\<close>

lemma psd_diag:
  assumes "psd k M" "i < k"
  shows "0 \<le> M ! i ! i"
proof -
  define x where "x = (replicate k (0::real))[i := 1]"
  have lx: "length x = k" by (simp add: x_def)
  have xn: "x ! t = (if t = i then 1 else 0)" if "t < k" for t
    using that assms(2) by (simp add: x_def nth_list_update)
  have M: "is_mat k k M" using assms(1) by (simp add: psd_def)
  have inner: "(\<Sum>b<k. M ! a ! b * (if b = i then 1 else 0)) = M ! a ! i" for a
  proof -
    have "(\<Sum>b<k. M ! a ! b * (if b = i then 1 else 0)) = (\<Sum>b<k. if b = i then M ! a ! i else 0)"
      by (rule sum.cong) auto
    then show ?thesis using assms(2) by simp
  qed
  have "quad x M = (\<Sum>a<k. (if a = i then 1 else 0) * (\<Sum>b<k. M ! a ! b * (if b = i then 1 else 0)))"
    by (simp add: quad_sum[OF M lx] xn cong: sum.cong_simp)
  also have "\<dots> = (\<Sum>a<k. if a = i then M ! i ! i else 0)"
    unfolding inner by (rule sum.cong) auto
  also have "\<dots> = M ! i ! i" using assms(2) by simp
  finally show ?thesis using assms(1) lx unfolding psd_def by metis
qed

lemma stdev_defined:
  assumes "reachable eigh self" "get_locals eigh self X = Inr L" "i < length (l_cov_batch L)"
  shows "0 \<le> diag (l_cov_batch L) ! i"
proof -
  note rc = reachable_count[OF assms(1)]
  have n0: "0 \<le> self_n self" "self_n self = 0 \<longrightarrow> self_C self = None" using rc by simp_all
  from locals_psd(3)[OF assms(2) n0 reachable_psd[OF assms(1)]]
  have "psd (length (l_cov_batch L)) (l_cov_batch L)" .
  from psd_diag[OF this assms(3)] assms(3) show ?thesis by (simp add: diag_def)
qed

subsection \<open>The adjugate inverse up to three dimensions\<close>

lemma det1: "det [[a]] = a"
  by (simp add: del_col_def)

lemma det2: "det [[a, b], [c, d]] = a * d - b * c"
  by (simp add: del_col_def)

lemma det3: "det [[a, b, c], [d, e, f], [g, h, i]]
   = a * (e * i - f * h) - b * (d * i - f * g) + c * (d * h - e * g)"
  by (simp add: del_col_def)

lemma is_inverse_adjugate:
  assumes M: "is_mat k k M" and A: "is_mat k k A" and D: "D \<noteq> 0"
    and r: "matmul M A = mscale D (identity k)" and l: "matmul A M = mscale D (identity k)"
  shows "is_inverse k M (mscale (1 / D) A)"
proof -
  have I: "mscale (1 / D) (mscale D (identity k)) = identity k"
    by (rule mat_eqI[of k k])
       (use D in \<open>simp_all add: mscale_nth[where m=k and k=k] mat_sq\<close>)
  have 1: "matmul M (mscale (1 / D) A) = identity k"
    using matmul_mscale_right[OF M A, of "1 / D"] r I by simp
  have 2: "matmul (mscale (1 / D) A) M = identity k"
    using matmul_mscale_left[OF A M, of "1 / D"] l I by simp
  show ?thesis unfolding is_inverse_def using 1 2 A by (simp add: mat_sq)
qed

lemma mat_inv1: "a \<noteq> 0 \<Longrightarrow> is_inverse 1 [[a]] (mat_inv [[a]])"
  by (simp add: is_inverse_def arr_defs identity_def)

lemma mat_inv2:
  assumes "det [[a, b], [c, d]] \<noteq> 0"
  shows "is_inverse 2 [[a, b], [c, d]] (mat_inv [[a, b], [c, d]])"
proof -
  let ?M = "[[a, b], [c, d]]"
  let ?A = "[[d, - b], [- c, a]]"
  have "map (\<lambda>i. map (\<lambda>j. (- 1) ^ (i + j) * det (del_col i (del_row j ?M)) / E) [0..<length ?M])
          [0..<length ?M] = mscale (1 / E) ?A" for E
    by (simp add: mscale_def vscale_def del_col_def del_row_def upt_rec numeral_2_eq_2)
  then have m: "mat_inv ?M = mscale (1 / det ?M) ?A"
    unfolding mat_inv_def by blast
  have r: "matmul ?M ?A = mscale (det ?M) (identity 2)"
    unfolding det2
    by (simp add: matmul_def ncols_def col_def dot_def identity_def mscale_def vscale_def
        upt_rec numeral_2_eq_2 algebra_simps)
  have l: "matmul ?A ?M = mscale (det ?M) (identity 2)"
    unfolding det2
    by (simp add: matmul_def ncols_def col_def dot_def identity_def mscale_def vscale_def
        upt_rec numeral_2_eq_2 algebra_simps)
  show ?thesis unfolding m
    by (rule is_inverse_adjugate[OF _ _ assms r l]) (simp_all add: is_mat_def)
qed

lemma mat_inv3:
  assumes "det [[a, b, c], [d, e, f], [g, h, i]] \<noteq> 0"
  shows "is_inverse 3 [[a, b, c], [d, e, f], [g, h, i]] (mat_inv [[a, b, c], [d, e, f], [g, h, i]])"
proof -
  let ?M = "[[a, b, c], [d, e, f], [g, h, i]]"
  let ?A = "[[e * i - f * h, - (b * i - c * h), b * f - c * e],
             [- (d * i - f * g), a * i - c * g, - (a * f - c * d)],
             [d * h - e * g, - (a * h - b * g), a * e - b * d]]"
  have "map (\<lambda>i. map (\<lambda>j. (- 1) ^ (i + j) * det (del_col i (del_row j ?M)) / E) [0..<length ?M])
          [0..<length ?M] = mscale (1 / E) ?A" for E
    by (simp add: mscale_def vscale_def del_col_def del_row_def upt_rec numeral_3_eq_3
        diff_divide_distrib)
  then have m: "mat_inv ?M = mscale (1 / det ?M) ?A"
    unfolding mat_inv_def by blast
  have r: "matmul ?M ?A = mscale (det ?M) (identity 3)"
    unfolding det3
    by (simp add: matmul_def ncols_def col_def dot_def identity_def mscale_def vscale_def
        upt_rec numeral_3_eq_3 algebra_simps)
  have l: "matmul ?A ?M = mscale (det ?M) (identity 3)"
    unfolding det3
    by (simp add: matmul_def ncols_def col_def dot_def identity_def mscale_def vscale_def
        upt_rec numeral_3_eq_3 algebra_simps)
  show ?thesis unfolding m
    by (rule is_inverse_adjugate[OF _ _ assms r l]) (simp_all add: is_mat_def)
qed

lemma list1: "length r = Suc 0 \<Longrightarrow> \<exists>a. r = [a]"
  by (cases r) auto

lemma list2: "length r = Suc (Suc 0) \<Longrightarrow> \<exists>a b. r = [a, b]"
  by (cases r) (auto dest: list1)

lemma list3: "length r = Suc (Suc (Suc 0)) \<Longrightarrow> \<exists>a b c. r = [a, b, c]"
  by (cases r) (auto dest: list2)

lemma mat_inv_small:
  assumes M: "is_mat k k M" and k: "k \<le> 3" and D: "det M \<noteq> 0"
  shows "is_inverse k M (mat_inv M)"
proof -
  from k consider "k = 0" | "k = 1" | "k = 2" | "k = 3" by linarith
  then show ?thesis
  proof cases
    case 1
    with M show ?thesis
      by (simp add: is_mat_def is_inverse_def mat_inv_def matmul_def identity_def)
  next
    case 2
    with M obtain r where "M = [r]" "length r = Suc 0"
      by (auto simp: is_mat_def dest!: list1)
    then obtain a where "M = [[a]]" by (auto dest: list1)
    with D 2 show ?thesis using mat_inv1[of a] by (simp add: det1 del: det.simps)
  next
    case 3
    with M obtain r1 r2 where "M = [r1, r2]" "length r1 = Suc (Suc 0)" "length r2 = Suc (Suc 0)"
      by (auto simp: is_mat_def numeral_2_eq_2 dest!: list2)
    then obtain a b c d where "M = [[a, b], [c, d]]" by (auto dest!: list2)
    with D 3 show ?thesis using mat_inv2[of a b c d] by simp
  next
    case 4
    with M obtain r1 r2 r3 where "M = [r1, r2, r3]" "length r1 = Suc (Suc (Suc 0))"
        "length r2 = Suc (Suc (Suc 0))" "length r3 = Suc (Suc (Suc 0))"
      by (auto simp: is_mat_def numeral_3_eq_3 dest!: list3)
    then obtain a b c d e f g h i where "M = [[a, b, c], [d, e, f], [g, h, i]]"
      by (auto dest!: list3)
    with D 4 show ?thesis using mat_inv3[of a b c d e f g h i] by simp
  qed
qed

subsection \<open>The inverses stored by a call\<close>

lemma inv_loop_seed_row:
  assumes loop: "inv_loop n B 0 None P0 (length B) = Inr invs" and i0: "i0 < length B"
    and small: "\<forall>j<i0. \<bar>det (running_cov n B 0 P0 j)\<bar> \<le> EPSILON"
    and seed: "\<bar>det (running_cov n B 0 P0 i0)\<bar> > EPSILON"
  shows "invs ! i0 = mat_inv (running_cov n B 0 P0 i0)"
proof -
  obtain m' where m': "length B - i0 = Suc m'" using i0 by (cases "length B - i0") auto
  from inv_loop_prefix[OF loop _ small] i0
  have "inv_loop n B i0 None (running_cov n B 0 P0 i0) (length B - i0) = Inr (drop i0 invs)"
    by simp
  from inv_loop_None_seed[OF this[unfolded m'] seed] obtain invs' where
    "drop i0 invs = mat_inv (running_cov n B 0 P0 i0) # invs'" by blast
  moreover have "length invs = length B" using inv_loop_length[OF loop] .
  ultimately show ?thesis using i0 by (metis nth_via_drop)
qed

text \<open>
  Claim C3: in a call of a reachable detector that returns, let row \<open>i0\<close> be the row at
  which the seed inverse is produced, the first row whose running projected covariance has
  a determinant above \<open>1e-8\<close> in absolute value. The seed is what \<open>np.linalg.inv\<close>
  returns for that matrix: its inverse, which is proved here for a detector of at most three
  components (the default) and assumed of the library beyond. Then for every row
  \<open>i \<ge> i0\<close> the matrix the rescale-and-update loop stores for row \<open>i\<close> is the inverse
  of the running projected covariance as it stood before row \<open>i\<close>. In particular that
  covariance is invertible at every row from the seed on: it is positive semidefinite, as
  is every covariance a reachable detector holds.
\<close>

theorem rank_one_inverse_is_inverse:
  assumes "reachable eigh self" and "get_locals eigh self X = Inr L"
    and "i0 \<le> i" and "i < length X"
    and "\<forall>j<i0. \<bar>det (running_cov (l_n L) (l_B L) 0 (l_proj_cov L) j)\<bar> \<le> EPSILON"
    and "\<bar>det (running_cov (l_n L) (l_B L) 0 (l_proj_cov L) i0)\<bar> > EPSILON"
    and "self_n_components self \<le> 3 \<or>
         is_inverse (nat (n_comp self X)) (running_cov (l_n L) (l_B L) 0 (l_proj_cov L) i0)
           (l_all_C_inv L ! i0)"
  shows "l_all_C_inv L ! i0 = mat_inv (running_cov (l_n L) (l_B L) 0 (l_proj_cov L) i0) \<and>
         is_inverse (nat (n_comp self X)) (running_cov (l_n L) (l_B L) 0 (l_proj_cov L) i)
           (l_all_C_inv L ! i)"
proof -
  define k where "k = nat (n_comp self X)"
  note ll = locals_loop[OF assms(2), folded k_def]
  note rc = reachable_count[OF assms(1)]
  have n0: "0 \<le> self_n self" "self_n self = 0 \<longrightarrow> self_C self = None" using rc by simp_all
  note lp = locals_psd[OF assms(2) n0 reachable_psd[OF assms(1)], folded k_def]
  have i: "i < length (l_B L)" using assms(4) ll(2) by simp
  then have i0: "i0 < length (l_B L)" using assms(3) by simp
  have en: "0 \<le> l_n L" using n0(1) by (simp add: ll(7) effective_n_def)
  have seed: "l_all_C_inv L ! i0 = mat_inv (running_cov (l_n L) (l_B L) 0 (l_proj_cov L) i0)"
    by (rule inv_loop_seed_row[OF ll(1) i0 assms(5) assms(6)])
  have seed_inv: "is_inverse k (running_cov (l_n L) (l_B L) 0 (l_proj_cov L) i0)
      (l_all_C_inv L ! i0)"
  proof (cases "self_n_components self \<le> 3")
    case True
    then have k3: "k \<le> 3" by (simp add: k_def n_comp_def)
    have sq: "is_mat k k (running_cov (l_n L) (l_B L) 0 (l_proj_cov L) i0)"
      using i0 by (intro running_cov_sq[OF ll(4) _ ll(3)]) simp
    have "det (running_cov (l_n L) (l_B L) 0 (l_proj_cov L) i0) \<noteq> 0"
      using assms(6) by (auto simp: EPSILON_def)
    from mat_inv_small[OF sq k3 this] show ?thesis by (simp add: seed)
  next
    case False
    with assms(7) show ?thesis by (simp add: k_def)
  qed
  have "is_inverse k (running_cov (l_n L) (l_B L) 0 (l_proj_cov L) i) (l_all_C_inv L ! i)"
  proof (cases "0 < l_n L + int i0")
    case True
    from inv_loop_correct_psd[OF ll(1) lp(1) lp(2) en assms(3) i assms(5) assms(6)
        seed_inv True]
    show ?thesis .
  next
    case False
    with en have e: "effective_n self = 0" "i0 = 0" by (simp_all add: ll(7))
    then have "self_n self = 0"
      using n0(1) by (auto simp: effective_n_def split: if_splits)
    then have "self_C self = None" using n0(2) by simp
    then have "l_proj_cov L = zeros k k" using ll(6) by simp
    then have "\<bar>det (zeros k k)\<bar> > EPSILON" using assms(6) e(2) by simp
    then have k0: "k = 0" using det_zeros[of k] by (cases "0 < k") (simp_all add: EPSILON_def)
    have "is_mat k k (running_cov (l_n L) (l_B L) 0 (l_proj_cov L) i)"
      using i by (intro running_cov_sq[OF ll(4) _ ll(3)]) simp
    moreover have "is_mat k k (l_all_C_inv L ! i)"
      using i by (intro inv_loop_sq[OF ll(1) _ ll(3) ll(4)]) simp_all
    ultimately show ?thesis unfolding k0 by (rule is_inverse_empty)
  qed
  with seed show ?thesis by (simp add: k_def)
qed

subsection \<open>Concrete runs of the loop\<close>

lemma five_rows_locals:
  "get_locals eigh1 (init (75 / 14) 1 3 50 (- 1)) [[0], [2], [1], [5], [7]] = Inr L5"
  by (simp add: step_defs arr_defs init_def eigh1_def Let_def L5_def)

lemma sixth_call: "get_locals eigh1 st5 [[6], [0]] = Inr L7"
  by (simp add: step_defs arr_defs eigh1_def Let_def st5_def L7_def)

lemma reachable_st5: "reachable eigh1 st5"
  using reachable_call[OF reachable_init, of eigh1 "75 / 14" 1 3 50 "- 1" "[[0], [2], [1], [5], [7]]"]
  by (simp add: five_rows)

lemma le_one_cases: "j \<le> Suc 0 \<Longrightarrow> j = 0 \<or> j = Suc 0"
  by auto

lemma L5_unseeded:
  "\<forall>j\<le>1. \<bar>det (running_cov (l_n L5) (l_B L5) 0 (l_proj_cov L5) j)\<bar> \<le> EPSILON"
  by (auto simp: L5_def cov_step_def EPSILON_def dest!: le_one_cases)

theorem unseeded_row_scores_zero_witness:
  "get_locals eigh1 (init (75 / 14) 1 3 50 (- 1)) [[0], [2], [1], [5], [7]] = Inr L5 \<and>
   \<bar>det (running_cov (l_n L5) (l_B L5) 0 (l_proj_cov L5) 0)\<bar> \<le> EPSILON \<and>
   \<bar>det (running_cov (l_n L5) (l_B L5) 0 (l_proj_cov L5) 1)\<bar> \<le> EPSILON \<and>
   l_all_C_inv L5 ! 1 = [[0]] \<and> l_score L5 ! 1 = 0 \<and> l_prediction L5 ! 1 = 0 \<and>
   get_preds eigh1 (init (75 / 14) 1 3 50 (- 1)) [[0], [2], [1], [5], [7]]
     = (Inr [0, 0, 0, 1, 0], st5) \<and>
   (\<exists>preds self'.
      get_preds eigh1 (init (75 / 14) 1 3 50 (- 1)) [[0], [2], [1], [5], [7]] = (Inr preds, self') \<and>
      length preds = 5 \<and> preds ! 1 = 0 \<and> self_prediction self' = Some preds \<and>
      (\<exists>score. self_score self' = Some score \<and> length score = 5 \<and> score ! 1 = 0))"
proof -
  have s: "\<bar>det (running_cov (l_n L5) (l_B L5) 0 (l_proj_cov L5) 0)\<bar> \<le> EPSILON"
      "\<bar>det (running_cov (l_n L5) (l_B L5) 0 (l_proj_cov L5) 1)\<bar> \<le> EPSILON"
    using L5_unseeded by auto
  have "l_all_C_inv L5 ! 1 = [[0]] \<and> l_score L5 ! 1 = 0 \<and> l_prediction L5 ! 1 = 0 \<and>
     (\<exists>preds self'.
      get_preds eigh1 (init (75 / 14) 1 3 50 (- 1)) [[0], [2], [1], [5], [7]] = (Inr preds, self') \<and>
      length preds = 5 \<and> preds ! 1 = 0 \<and> self_prediction self' = Some preds \<and>
      (\<exists>score. self_score self' = Some score \<and> length score = 5 \<and> score ! 1 = 0))"
    using unseeded_row_scores_zero[OF five_rows_locals _ L5_unseeded]
    by (simp add: n_comp_def init_def zeros_def eval_nat_numeral)
  with s five_rows_locals five_rows show ?thesis by blast
qed

lemma L7_running: "running_cov (l_n L7) (l_B L7) 0 (l_proj_cov L7) 1 = [[83 / 10]]"
  by (simp add: L7_def cov_step_def arr_defs)

lemma L7_seed_det: "\<bar>det (running_cov (l_n L7) (l_B L7) 0 (l_proj_cov L7) 0)\<bar> > EPSILON"
  by (simp add: L7_def EPSILON_def del_col_def)

lemma st5_components: "self_n_components st5 \<le> 3"
  by (simp add: st5_def)

theorem rank_one_inverse_is_inverse_witness:
  "reachable eigh1 st5 \<and> get_locals eigh1 st5 [[6], [0]] = Inr L7 \<and>
   \<bar>det (running_cov (l_n L7) (l_B L7) 0 (l_proj_cov L7) 0)\<bar> > EPSILON \<and>
   self_n_components st5 \<le> 3 \<and>
   running_cov (l_n L7) (l_B L7) 0 (l_proj_cov L7) 1 = [[83 / 10]] \<and>
   l_all_C_inv L7 ! 1 = [[10 / 83]] \<and>
   is_inverse 1 [[83 / 10]] [[10 / 83]]"
proof -
  have "is_inverse (nat (n_comp st5 [[6], [0]]))
          (running_cov (l_n L7) (l_B L7) 0 (l_proj_cov L7) 1) (l_all_C_inv L7 ! 1)"
    using rank_one_inverse_is_inverse[OF reachable_st5 sixth_call _ _ _ L7_seed_det
        disjI1[OF st5_components], of 1] by simp
  then have "is_inverse 1 [[83 / 10]] [[10 / 83]]"
    unfolding L7_running by (simp add: n_comp_def st5_def L7_def)
  moreover have "l_all_C_inv L7 ! 1 = [[10 / 83]]" by (simp add: L7_def)
  ultimately show ?thesis
    using reachable_st5 sixth_call L7_seed_det L7_running st5_components by blast
qed

end
